theory Spec2Isabelle
  imports Main "HOL-Library.Word" "HOL-Library.Multiset"
begin

section \<open>Token ranges of the bloom ring (pkg/bloomutils/ring.go)\<close>

text \<open>
  The theory embeds the two partitioners of \<^verbatim>\<open>pkg/bloomutils/ring.go\<close>:
  \<^verbatim>\<open>GetInstanceWithTokenRange\<close> (one token per instance, equal slices of the 64-bit
  fingerprint space) and \<^verbatim>\<open>GetInstancesWithTokenRanges\<close> (many tokens per instance,
  ranges of the 32-bit token space read off a sorted merge of all tokens).

  Go slices share their backing array with the caller, and both functions sort in place,
  so every function below returns the caller's snapshot as it is left after the call
  next to the value the Go function returns. A panic is a value of its own.
\<close>

subsection \<open>Data\<close>

type_synonym u32 = "32 word"
type_synonym u64 = "64 word"

text \<open>\<^verbatim>\<open>math.MaxUint32\<close> and \<^verbatim>\<open>math.MaxUint64\<close>: all bits set.\<close>

definition MaxUint32 :: u32 where
  "MaxUint32 = - 1"

definition MaxUint64 :: u64 where
  "MaxUint64 = - 1"

text \<open>
  \<^verbatim>\<open>ring.InstanceDesc\<close> (dskit): of its fields the code reads \<^verbatim>\<open>Id\<close> and
  \<^verbatim>\<open>Tokens\<close> only. The zero value has the empty id and no tokens.
\<close>

record InstanceDesc =
  Id :: string
  Tokens :: "u32 list"

definition zero_InstanceDesc :: InstanceDesc where
  "zero_InstanceDesc = \<lparr>Id = [], Tokens = []\<rparr>"

record InstanceWithTokenRange =
  Instance :: InstanceDesc
  MinToken :: u32
  MaxToken :: u32

datatype BoundsCheck = Before | Overlap | After

text \<open>\<^verbatim>\<open>InstanceWithTokenRange.Cmp\<close>, ring.go lines 22-29.\<close>

definition Cmp :: "InstanceWithTokenRange \<Rightarrow> u32 \<Rightarrow> BoundsCheck" where
  "Cmp i token =
     (if token < MinToken i then Before
      else if token > MaxToken i then After
      else Overlap)"

text \<open>\<^verbatim>\<open>InstancesWithTokenRange.Contains\<close>, ring.go lines 33-40.\<close>

fun Contains :: "InstanceWithTokenRange list \<Rightarrow> u32 \<Rightarrow> bool" where
  "Contains [] token = False"
| "Contains (instance # rest) token =
     (if Cmp instance token = Overlap then True else Contains rest token)"

text \<open>
  Modelled from the spec: \<^verbatim>\<open>v1.FingerprintBounds\<close>, \<^verbatim>\<open>v1.NewBounds\<close> and the bounds'
  \<^verbatim>\<open>Cmp\<close> live in package \<^verbatim>\<open>pkg/storage/bloom/v1\<close>, which is not among the
  sources. The spec (4.1) gives the value type as an inclusive pair and the
  classification as: Before if the token is below min, After if it is above max, else
  Overlap. Fingerprints are 64-bit.
\<close>

record FingerprintBounds =
  Min :: u64
  Max :: u64

definition NewBounds :: "u64 \<Rightarrow> u64 \<Rightarrow> FingerprintBounds" where
  "NewBounds lo hi = \<lparr>Min = lo, Max = hi\<rparr>"

definition Cmp_bounds :: "FingerprintBounds \<Rightarrow> u64 \<Rightarrow> BoundsCheck" where
  "Cmp_bounds b fp =
     (if fp < Min b then Before
      else if fp > Max b then After
      else Overlap)"

datatype error = ErrInstanceNotFound

text \<open>What a call does: it panics, or it returns a value.\<close>

datatype 'a outcome = Panic | Returns 'a

subsection \<open>Library functions of Go\<close>

text \<open>
  \<^verbatim>\<open>sort.Slice\<close> with a comparison \<^verbatim>\<open>key(x[i]) < key(x[j])\<close> reorders the slice in
  place into ascending key order. It is not stable: Go promises nothing on the order of
  elements with equal keys, and its algorithm keeps that order for short slices only.
  So the sort of the instances is a parameter \<open>sort_Slice\<close> of the functions that call
  it, and \<open>sorts_by\<close> is all that is known of it: the result holds the same elements and
  is ascending by key.

  For the tokens of one instance the key is the element itself. Then the promise leaves
  one result only (\<open>properties_for_sort\<close>: a sorted list with the same elements as
  \<open>xs\<close> is \<open>sort xs\<close>), and the model writes \<open>sort\<close>.
\<close>

definition sorts_by :: "('a \<Rightarrow> 'k::linorder) \<Rightarrow> ('a list \<Rightarrow> 'a list) \<Rightarrow> bool" where
  "sorts_by key sort_Slice \<longleftrightarrow>
     (\<forall>xs. mset (sort_Slice xs) = mset xs \<and> sorted (map key (sort_Slice xs)))"

text \<open>\<^verbatim>\<open>slices.IndexFunc\<close>: the first index whose element satisfies \<open>f\<close>, or -1.\<close>

fun IndexFunc :: "'a list \<Rightarrow> ('a \<Rightarrow> bool) \<Rightarrow> int" where
  "IndexFunc [] f = - 1"
| "IndexFunc (x # xs) f =
     (if f x then 0
      else (let r = IndexFunc xs f in if r = - 1 then - 1 else r + 1))"

subsection \<open>The single-token partitioner\<close>

text \<open>
  \<^verbatim>\<open>GetInstanceWithTokenRange\<close>, ring.go lines 46-75.

  The first argument stands for \<^verbatim>\<open>sort.Slice\<close> with the comparison of line 51, by
  \<open>first_token\<close>. That comparison reads \<^verbatim>\<open>Tokens[0]\<close> of both elements it
  compares. With two or more instances every element is compared at least once, so an
  instance without tokens makes the call panic (index out of range); with fewer than
  two instances nothing is compared.

  \<^verbatim>\<open>i\<close>, \<^verbatim>\<open>n\<close> and \<^verbatim>\<open>step\<close> are \<^verbatim>\<open>uint64\<close>: the products and sums wrap.
\<close>

definition first_token :: "InstanceDesc \<Rightarrow> u32" where
  "first_token inst = hd (Tokens inst)"

definition GetInstanceWithTokenRange ::
  "(InstanceDesc list \<Rightarrow> InstanceDesc list) \<Rightarrow> string \<Rightarrow> InstanceDesc list \<Rightarrow>
   (InstanceDesc list \<times> (error + FingerprintBounds)) outcome" where
  "GetInstanceWithTokenRange sort_Slice id' instances =
     (if 2 \<le> length instances \<and> [] \<in> set (map Tokens instances) then Panic
      else
        let instances' = sort_Slice instances;
            idx = IndexFunc instances' (\<lambda>inst. Id inst = id')
        in if idx = - 1 then Returns (instances', Inl ErrInstanceNotFound)
           else
             let i = (word_of_int idx :: u64);
                 n = (word_of_nat (length instances') :: u64);
                 step = MaxUint64 div n;
                 minToken = step * i;
                 maxToken = step * i + step - 1;
                 maxToken = (if i = n - 1 then MaxUint64 else maxToken)
             in Returns (instances', Inr (NewBounds minToken maxToken)))"

subsection \<open>Iterators of package v1\<close>

text \<open>
  Package \<^verbatim>\<open>pkg/storage/bloom/v1\<close> is not among the sources. An iterator is modelled
  as the list of the elements it has yet to yield; \<^verbatim>\<open>v1.NewSliceIter\<close> and
  \<^verbatim>\<open>v1.NewPeekingIter\<close> are then the identity.
\<close>

type_synonym 'a IndexedValue = "'a \<times> nat"

definition Value :: "'a IndexedValue \<Rightarrow> 'a" where
  "Value iv = fst iv"

definition Index :: "'a IndexedValue \<Rightarrow> nat" where
  "Index iv = snd iv"

text \<open>
  Modelled from the spec: \<^verbatim>\<open>v1.NewIterWithIndex\<close> is absent. Spec 4.3, step 2: each
  per-instance sequence is exposed tagged with the identity of its instance.
\<close>

definition NewIterWithIndex :: "'a list \<Rightarrow> nat \<Rightarrow> 'a IndexedValue list" where
  "NewIterWithIndex itr i = map (\<lambda>v. (v, i)) itr"

text \<open>
  Modelled from the spec: \<^verbatim>\<open>v1.NewHeapIterator\<close> is absent. Spec 4.3, step 3: a k-way
  merge, one entry per instance, repeatedly extracts the globally smallest next element
  across all sequences. \<open>pop\<close> is one extraction: the smallest head and the sequences
  without it. The spec leaves open which sequence wins among equal heads; the model
  takes the one that comes first.
\<close>

fun pop :: "('a \<Rightarrow> 'a \<Rightarrow> bool) \<Rightarrow> 'a list list \<Rightarrow> ('a \<times> 'a list list) option" where
  "pop less' [] = None"
| "pop less' ([] # itrs) =
     (case pop less' itrs of
        None \<Rightarrow> None
      | Some (y, itrs') \<Rightarrow> Some (y, [] # itrs'))"
| "pop less' ((x # xs) # itrs) =
     (case pop less' itrs of
        None \<Rightarrow> Some (x, xs # itrs)
      | Some (y, itrs') \<Rightarrow>
          if less' y x then Some (y, (x # xs) # itrs') else Some (x, xs # itrs))"

function NewHeapIterator :: "('a \<Rightarrow> 'a \<Rightarrow> bool) \<Rightarrow> 'a list list \<Rightarrow> 'a list" where
  "NewHeapIterator less' itrs =
     (case pop less' itrs of
        None \<Rightarrow> []
      | Some (x, itrs') \<Rightarrow> x # NewHeapIterator less' itrs')"
  by pat_completeness auto

lemma pop_shrinks:
  "pop less' itrs = Some (x, itrs') \<Longrightarrow> length (concat itrs') < length (concat itrs)"
proof (induction less' itrs arbitrary: x itrs' rule: pop.induct)
  case (1 less')
  then show ?case by simp
next
  case (2 less' itrs)
  then show ?case by (auto split: option.splits)
next
  case (3 less' x xs itrs)
  then show ?case by (fastforce split: option.splits if_splits)
qed

termination NewHeapIterator
  by (relation "measure (\<lambda>(less', itrs). length (concat itrs))") (auto dest: pop_shrinks)

declare NewHeapIterator.simps [simp del]

text \<open>
  Modelled from the spec: \<^verbatim>\<open>v1.NewDedupingIter\<close> is absent. Spec 4.3, step 4: a
  sequential fold over the merged sequence that "resembles a deduplication fold": an
  element opens an output through \<open>from'\<close>, and a following element that \<open>eq\<close> finds
  equal to the open output is folded into it by \<open>merge\<close> instead of opening an output of
  its own. The \<open>from'\<close> of ring.go is a closure over a variable, so \<open>from'\<close> takes and
  returns that state; its \<open>merge\<close> panics, so \<open>merge\<close> returns an outcome.
\<close>

fun dedupe ::
  "('a \<Rightarrow> 'b \<Rightarrow> bool) \<Rightarrow> ('s \<Rightarrow> 'a \<Rightarrow> 'b \<times> 's) \<Rightarrow> ('a \<Rightarrow> 'b \<Rightarrow> 'b outcome) \<Rightarrow>
   's \<Rightarrow> 'b option \<Rightarrow> 'a list \<Rightarrow> 'b list outcome" where
  "dedupe eq from' merge s None [] = Returns []"
| "dedupe eq from' merge s (Some cur) [] = Returns [cur]"
| "dedupe eq from' merge s None (x # itr) =
     (case from' s x of (b, s') \<Rightarrow> dedupe eq from' merge s' (Some b) itr)"
| "dedupe eq from' merge s (Some cur) (x # itr) =
     (if eq x cur then
        (case merge x cur of
           Panic \<Rightarrow> Panic
         | Returns cur' \<Rightarrow> dedupe eq from' merge s (Some cur') itr)
      else
        (case from' s x of (b, s') \<Rightarrow>
           map_outcome ((#) cur) (dedupe eq from' merge s' (Some b) itr)))"

definition NewDedupingIter ::
  "('a \<Rightarrow> 'b \<Rightarrow> bool) \<Rightarrow> ('s \<Rightarrow> 'a \<Rightarrow> 'b \<times> 's) \<Rightarrow> ('a \<Rightarrow> 'b \<Rightarrow> 'b outcome) \<Rightarrow>
   's \<Rightarrow> 'a list \<Rightarrow> 'b list outcome" where
  "NewDedupingIter eq from' merge s itr = dedupe eq from' merge s None itr"

subsection \<open>The sorted merge of all tokens\<close>

text \<open>
  \<^verbatim>\<open>NewInstanceSortMergeIterator\<close>, ring.go lines 109-144.

  The loop of lines 112-116 sorts the tokens of every instance in place
  (\<open>sort_tokens\<close>: the caller's snapshot after the call) and tags them with the index of
  the instance. The closure of lines 130-138 is \<open>range_from\<close>: its variable
  \<^verbatim>\<open>prevToken\<close> is an \<^verbatim>\<open>int\<close>, and \<^verbatim>\<open>uint32(prevToken+1)\<close> keeps the low 32 bits.
  The iterator is lazy in Go; the list is what a full pass over it yields.
\<close>

definition sort_tokens :: "InstanceDesc list \<Rightarrow> InstanceDesc list" where
  "sort_tokens instances =
     map (\<lambda>inst. inst\<lparr>Tokens := sort (Tokens inst)\<rparr>) instances"

definition tokenIters :: "InstanceDesc list \<Rightarrow> u32 IndexedValue list list" where
  "tokenIters instances =
     map (\<lambda>(i, inst). NewIterWithIndex (Tokens inst) i) (enumerate 0 instances)"

definition range_from ::
  "InstanceDesc list \<Rightarrow> int \<Rightarrow> u32 IndexedValue \<Rightarrow> InstanceWithTokenRange \<times> int" where
  "range_from instances prevToken iv =
     (let minToken = (word_of_int (prevToken + 1) :: u32);
          maxToken = Value iv;
          prevToken = uint maxToken
      in (\<lparr>Instance = instances ! Index iv, MinToken = minToken, MaxToken = maxToken\<rparr>,
          prevToken))"

definition heapIter :: "InstanceDesc list \<Rightarrow> u32 IndexedValue list" where
  "heapIter instances =
     NewHeapIterator (\<lambda>iv1 iv2. Value iv1 < Value iv2) (tokenIters instances)"

definition NewInstanceSortMergeIterator ::
  "InstanceDesc list \<Rightarrow> InstanceDesc list \<times> InstanceWithTokenRange list outcome" where
  "NewInstanceSortMergeIterator instances =
     (let instances' = sort_tokens instances
      in (instances',
          NewDedupingIter (\<lambda>iv iwtr. False) (range_from instances') (\<lambda>iv iwtr. Panic)
            (- 1) (heapIter instances')))"

subsection \<open>The multi-token partitioner\<close>

text \<open>
  \<^verbatim>\<open>GetInstancesWithTokenRanges\<close>, ring.go lines 81-105. \<open>ranges_loop\<close> is the loop of
  lines 86-94 over the iterator, with the three variables it updates;
  \<open>appends_wraparound\<close> is the condition of line 97 on their final values.
\<close>

fun ranges_loop ::
  "string \<Rightarrow> InstanceWithTokenRange list \<Rightarrow>
   InstanceWithTokenRange list \<times> InstanceDesc \<times> u32 \<Rightarrow>
   InstanceWithTokenRange list \<times> InstanceDesc \<times> u32" where
  "ranges_loop id' [] st = st"
| "ranges_loop id' (at # it) (servers, firstInst, lastToken) =
     ranges_loop id' it
       (if Id (Instance at) = id' then servers @ [at] else servers,
        if Id firstInst = [] then Instance at else firstInst,
        MaxToken at)"

definition loop_result ::
  "string \<Rightarrow> InstanceDesc list \<Rightarrow> (InstanceWithTokenRange list \<times> InstanceDesc \<times> u32) outcome" where
  "loop_result id' instances =
     map_outcome (\<lambda>it. ranges_loop id' it ([], zero_InstanceDesc, 0))
       (snd (NewInstanceSortMergeIterator instances))"

definition appends_wraparound :: "string \<Rightarrow> InstanceDesc list \<Rightarrow> bool" where
  "appends_wraparound id' instances =
     (case loop_result id' instances of
        Panic \<Rightarrow> False
      | Returns (servers, firstInst, lastToken) \<Rightarrow> 0 < length servers \<and> Id firstInst = id')"

definition GetInstancesWithTokenRanges ::
  "string \<Rightarrow> InstanceDesc list \<Rightarrow> (InstanceDesc list \<times> InstanceWithTokenRange list) outcome" where
  "GetInstancesWithTokenRanges id' instances =
     (case loop_result id' instances of
        Panic \<Rightarrow> Panic
      | Returns (servers, firstInst, lastToken) \<Rightarrow>
          Returns (fst (NewInstanceSortMergeIterator instances),
            if 0 < length servers \<and> Id firstInst = id'
            then servers @
                   [\<lparr>Instance = Instance (servers ! 0),
                     MinToken = lastToken + 1,
                     MaxToken = MaxUint32\<rparr>]
            else servers))"

subsection \<open>Notions the properties are stated with\<close>

text \<open>What the caller's snapshot holds after a call that returned.\<close>

definition snapshot_after :: "(InstanceDesc list \<times> 'a) outcome \<Rightarrow> InstanceDesc list option" where
  "snapshot_after out = (case out of Panic \<Rightarrow> None | Returns (instances', r) \<Rightarrow> Some instances')"

text \<open>The bounds the single-token partitioner returns for an id, if it returns bounds.\<close>

definition range_of ::
  "(InstanceDesc list \<Rightarrow> InstanceDesc list) \<Rightarrow> string \<Rightarrow> InstanceDesc list \<Rightarrow>
   FingerprintBounds option" where
  "range_of sort_Slice id' instances =
     (case GetInstanceWithTokenRange sort_Slice id' instances of
        Returns (instances', Inr b) \<Rightarrow> Some b
      | _ \<Rightarrow> None)"

text \<open>The ids of the snapshot, in its order, whose bounds report Overlap for a fingerprint.\<close>


definition owners_of ::
  "(InstanceDesc list \<Rightarrow> InstanceDesc list) \<Rightarrow> u64 \<Rightarrow> InstanceDesc list \<Rightarrow> string list" where
  "owners_of sort_Slice fp instances =
     filter (\<lambda>id'. case range_of sort_Slice id' instances of
                      None \<Rightarrow> False
                    | Some b \<Rightarrow> Cmp_bounds b fp = Overlap)
       (map Id instances)"

text \<open>What a full pass over the iterator of \<^verbatim>\<open>NewInstanceSortMergeIterator\<close> yields.\<close>

definition merged_ranges :: "InstanceDesc list \<Rightarrow> InstanceWithTokenRange list" where
  "merged_ranges instances =
     (case snd (NewInstanceSortMergeIterator instances) of Panic \<Rightarrow> [] | Returns it \<Rightarrow> it)"

text \<open>The ranges of that pass whose owner has the id: what line 91 collects.\<close>

definition owned_ranges :: "string \<Rightarrow> InstanceDesc list \<Rightarrow> InstanceWithTokenRange list" where
  "owned_ranges id' instances =
     filter (\<lambda>r. Id (Instance r) = id') (merged_ranges instances)"

text \<open>The list of ranges the multi-token partitioner returns for an id.\<close>

definition ranges_of :: "string \<Rightarrow> InstanceDesc list \<Rightarrow> InstanceWithTokenRange list" where
  "ranges_of id' instances =
     (case GetInstancesWithTokenRanges id' instances of
        Panic \<Rightarrow> []
      | Returns (instances', servers) \<Rightarrow> servers)"

text \<open>How many instances of the snapshot have a first token below that of \<open>inst\<close>.\<close>

definition smaller_first_tokens :: "InstanceDesc \<Rightarrow> InstanceDesc list \<Rightarrow> nat" where
  "smaller_first_tokens inst instances =
     length (filter (\<lambda>x. first_token x < first_token inst) instances)"

definition all_tokens :: "InstanceDesc list \<Rightarrow> u32 list" where
  "all_tokens instances = concat (map Tokens instances)"

text \<open>
  How many returned ranges hold the token \<open>t\<close>, counted over the range lists of all ids
  present in the snapshot (every id once).
\<close>

definition cover_count :: "u32 \<Rightarrow> InstanceDesc list \<Rightarrow> nat" where
  "cover_count t instances =
     sum_list (map (\<lambda>id'. length (filter (\<lambda>r. Cmp r t = Overlap) (ranges_of id' instances)))
                   (remdups (map Id instances)))"

text \<open>The ids of the instances that hold a token no token of the snapshot is below.\<close>

definition smallest_token_owners :: "InstanceDesc list \<Rightarrow> string list" where
  "smallest_token_owners instances =
     map Id (filter (\<lambda>inst. list_ex (\<lambda>t. list_all (\<lambda>u. t \<le> u) (all_tokens instances))
                              (Tokens inst))
               instances)"

text \<open>
  The boundary mapping in the words of the spec (4.3, step 4): one piece of state, the
  previously emitted boundary; for each (token, owner) emit the range from
  \<open>prevBoundary + 1\<close> to the token, then set \<open>prevBoundary\<close> to the token. The sum is
  taken in the 32-bit token type.
\<close>

fun boundary_map ::
  "InstanceDesc list \<Rightarrow> int \<Rightarrow> u32 IndexedValue list \<Rightarrow> InstanceWithTokenRange list" where
  "boundary_map instances prevBoundary [] = []"
| "boundary_map instances prevBoundary ((token, owner) # rest) =
     \<lparr>Instance = instances ! owner,
      MinToken = word_of_int (prevBoundary + 1),
      MaxToken = token\<rparr> # boundary_map instances (uint token) rest"

text \<open>
  The id line 97 compares with: the loop keeps replacing \<^verbatim>\<open>firstInst\<close> while its id is
  empty, so it ends as the owner of the first range whose owner has a non-empty id.
\<close>

definition first_id :: "InstanceWithTokenRange list \<Rightarrow> string" where
  "first_id it =
     (case find (\<lambda>r. Id (Instance r) \<noteq> []) it of None \<Rightarrow> [] | Some r \<Rightarrow> Id (Instance r))"

section \<open>Auxiliary facts\<close>

subsection \<open>Index search and slot arithmetic\<close>

lemma IndexFunc_ge: "- 1 \<le> IndexFunc xs f"
  by (induction xs) (auto simp: Let_def)

lemma IndexFunc_none_iff: "IndexFunc xs f = - 1 \<longleftrightarrow> (\<forall>x \<in> set xs. \<not> f x)"
proof (induction xs)
  case Nil
  then show ?case by simp
next
  case (Cons x xs)
  have "IndexFunc xs f + 1 \<noteq> - 1" using IndexFunc_ge [of xs f] by simp
  with Cons show ?case by (simp add: Let_def)
qed

lemma IndexFunc_found:
  "IndexFunc xs f = int i \<Longrightarrow> i < length xs \<and> f (xs ! i) \<and> (\<forall>j < i. \<not> f (xs ! j))"
proof (induction xs arbitrary: i)
  case Nil
  then show ?case by simp
next
  case (Cons x xs)
  show ?case
  proof (cases "f x")
    case True
    with Cons.prems show ?thesis by simp
  next
    case False
    with Cons.prems have r: "IndexFunc xs f \<noteq> - 1" and e: "IndexFunc xs f + 1 = int i"
      by (auto simp: Let_def split: if_splits)
    from e IndexFunc_ge [of xs f] r obtain k where k: "i = Suc k" "IndexFunc xs f = int k"
      by (cases i) auto
    from Cons.IH [OF k(2)] False k(1) show ?thesis
      by (auto simp: nth_Cons split: nat.splits)
  qed
qed

lemma IndexFunc_nth_distinct:
  "distinct (map g xs) \<Longrightarrow> i < length xs \<Longrightarrow> IndexFunc xs (\<lambda>x. g x = g (xs ! i)) = int i"
proof (induction xs arbitrary: i)
  case Nil
  then show ?case by simp
next
  case (Cons x xs)
  show ?case
  proof (cases i)
    case 0
    then show ?thesis by simp
  next
    case (Suc k)
    with Cons.prems have "k < length xs" "g x \<noteq> g (xs ! k)" "distinct (map g xs)"
      by auto
    with Cons.IH [of k] Suc show ?thesis by (simp add: Let_def)
  qed
qed

lemma unat_MaxUint64: "unat MaxUint64 = 2 ^ 64 - 1"
  by (simp add: MaxUint64_def unsigned_minus_1_eq_mask mask_eq_exp_minus_1)

lemma step_unat:
  assumes "n < 2 ^ 64"
  shows "unat (MaxUint64 div (word_of_nat n :: u64)) = (2 ^ 64 - 1) div n"
  using assms by (simp add: unat_div unat_MaxUint64 unat_of_nat)

lemma slot_arith:
  fixes n i :: nat
  assumes "0 < n" "n < 2 ^ 64" "i < n"
  defines "S \<equiv> (2 ^ 64 - 1 :: nat) div n"
  shows "S * i + S \<le> 2 ^ 64 - 1" "1 \<le> S"
proof -
  have "S * i + S = S * Suc i" by simp
  also have "\<dots> \<le> S * n" using assms(3) by (intro mult_le_mono2) simp
  also have "\<dots> \<le> 2 ^ 64 - 1" unfolding S_def by (simp add: mult.commute)
  finally show "S * i + S \<le> 2 ^ 64 - 1" .
  show "1 \<le> S" unfolding S_def using assms(1,2)
    by (simp add: Suc_le_eq div_greater_zero_iff)
qed

lemma slot_words:
  fixes n i :: nat
  assumes "0 < n" "n < 2 ^ 64" "i < n"
  defines "S \<equiv> (2 ^ 64 - 1 :: nat) div n"
  defines "step \<equiv> MaxUint64 div (word_of_nat n :: u64)"
  shows "unat (step * word_of_nat i) = i * S"
    and "unat (step * word_of_nat i + step - 1) = i * S + S - 1"
    and "(word_of_nat i :: u64) = word_of_nat n - 1 \<longleftrightarrow> i = n - 1"
proof -
  have S: "unat step = S" unfolding step_def S_def using assms(2) by (rule step_unat)
  have b: "S * i + S \<le> 2 ^ 64 - 1" "1 \<le> S"
    using slot_arith [OF assms(1-3)] unfolding S_def by auto
  have i: "unat (word_of_nat i :: u64) = i" using assms(2,3) by (simp add: unat_of_nat)
  have m: "unat (step * word_of_nat i) = S * i"
    using b by (simp add: unat_word_ariths S i)
  then show "unat (step * word_of_nat i) = i * S" by (simp add: mult.commute)
  have "unat (step * word_of_nat i) + unat step < 2 ^ LENGTH(64)"
    using b by (simp add: m S)
  then have "unat (step * word_of_nat i + step) = unat (step * word_of_nat i) + unat step"
    by (simp only: unat_add_lem)
  then have a: "unat (step * word_of_nat i + step) = S * i + S"
    by (simp only: m S)
  have "unat (step * word_of_nat i + step - 1) = unat (step * word_of_nat i + step) - 1"
    using a b by (simp add: unat_minus_one unat_eq_zero [symmetric])
  with a show "unat (step * word_of_nat i + step - 1) = i * S + S - 1"
    by (simp add: mult.commute)
  from assms(1) obtain m where n: "n = Suc m" by (cases n) auto
  have "(word_of_nat i :: u64) = word_of_nat m \<longleftrightarrow> i = m"
    using assms(2,3) n by (simp only: word_of_nat_eq_iff) (simp add: take_bit_nat_eq_self)
  then show "(word_of_nat i :: u64) = word_of_nat n - 1 \<longleftrightarrow> i = n - 1"
    by (simp add: n)
qed

lemma sorts_by_mset: "sorts_by key srt \<Longrightarrow> mset (srt xs) = mset xs"
  by (simp add: sorts_by_def)

lemma sorts_by_sorted: "sorts_by key srt \<Longrightarrow> sorted (map key (srt xs))"
  by (simp add: sorts_by_def)

lemma sorts_by_length: "sorts_by key srt \<Longrightarrow> length (srt xs) = length xs"
  by (metis sorts_by_mset size_mset)

lemma sorts_by_set: "sorts_by key srt \<Longrightarrow> set (srt xs) = set xs"
  by (metis sorts_by_mset set_mset_mset)

lemma sorts_by_sort_key: "sorts_by key (sort_key key)"
  by (simp add: sorts_by_def)

lemma single_token_slot:
  assumes len: "length instances < 2 ^ 64"
    and tok: "length instances < 2 \<or> [] \<notin> set (map Tokens instances)"
    and srt: "length (srt instances) = length instances"
    and idx: "IndexFunc (srt instances) (\<lambda>inst. Id inst = id') = int i"
  shows "\<exists>b. GetInstanceWithTokenRange srt id' instances =
            Returns (srt instances, Inr b)
        \<and> unat (Min b) = i * ((2 ^ 64 - 1) div length instances)
        \<and> unat (Max b) =
            (if i = length instances - 1 then 2 ^ 64 - 1
             else i * ((2 ^ 64 - 1) div length instances)
                  + (2 ^ 64 - 1) div length instances - 1)"
proof -
  let ?n = "length instances"
  from IndexFunc_found [OF idx] have i: "i < ?n" by (simp add: srt)
  then have n: "0 < ?n" by (cases instances) auto
  note w = slot_words [OF n len i]
  have np: "\<not> (2 \<le> ?n \<and> [] \<in> set (map Tokens instances))" using tok by auto
  have ne: "int i \<noteq> - 1" by simp
  show ?thesis
    unfolding GetInstanceWithTokenRange_def
    apply (simp only: np if_False Let_def idx ne srt
        of_int_of_nat_eq w(3))
    apply (simp add: NewBounds_def w(1,2) unat_MaxUint64)
    done
qed

subsection \<open>The merge\<close>

text \<open>
  Of the merge, everything below uses two facts only: its output is a permutation of
  the elements of its input sequences, and it is sorted when they are. Which sequence
  wins among equal heads plays no part.
\<close>

lemma pop_None_iff: "pop less' itrs = None \<longleftrightarrow> concat itrs = []"
  by (induction less' itrs rule: pop.induct) (auto split: option.splits)

lemma pop_mset:
  "pop less' itrs = Some (x, itrs') \<Longrightarrow> mset (concat itrs) = add_mset x (mset (concat itrs'))"
proof (induction less' itrs arbitrary: x itrs' rule: pop.induct)
  case (1 less')
  then show ?case by simp
next
  case (2 less' itrs)
  then show ?case by (auto split: option.splits)
next
  case (3 less' h hs itrs)
  then show ?case by (auto split: option.splits if_splits)
qed

lemma pop_sorted:
  "pop less' itrs = Some (x, itrs') \<Longrightarrow> \<forall>itr \<in> set itrs. sorted (map key itr) \<Longrightarrow>
   \<forall>itr \<in> set itrs'. sorted (map key itr)"
proof (induction less' itrs arbitrary: x itrs' rule: pop.induct)
  case (1 less')
  then show ?case by simp
next
  case (2 less' itrs)
  then show ?case by (auto split: option.splits)
next
  case (3 less' h hs itrs)
  then show ?case by (auto split: option.splits if_splits)
qed

lemma pop_least:
  fixes key :: "'a \<Rightarrow> 'k::linorder"
  shows "pop (\<lambda>a b. key a < key b) itrs = Some (x, itrs') \<Longrightarrow>
   \<forall>itr \<in> set itrs. sorted (map key itr) \<Longrightarrow>
   \<forall>y \<in> set (concat itrs). key x \<le> key y"
proof (induction "\<lambda>a b. key a < key b" itrs arbitrary: x itrs' rule: pop.induct)
  case 1
  then show ?case by simp
next
  case (2 itrs)
  then show ?case by (auto split: option.splits)
next
  case (3 h hs itrs)
  have hs: "\<forall>z \<in> set hs. key h \<le> key z" using "3.prems"(2) by simp
  show ?case
  proof (cases "pop (\<lambda>a b. key a < key b) itrs")
    case None
    then have "concat itrs = []" by (simp add: pop_None_iff)
    with "3.prems" None hs show ?thesis by auto
  next
    case (Some p)
    obtain y its where p: "p = (y, its)" by (cases p)
    from "3.hyps" [OF Some [unfolded p]] "3.prems"(2)
    have y: "\<forall>z \<in> set (concat itrs). key y \<le> key z" by simp
    show ?thesis
    proof (cases "key y < key h")
      case True
      with "3.prems"(1) Some p have "x = y" by simp
      with True hs y show ?thesis by fastforce
    next
      case False
      with "3.prems"(1) Some p have "x = h" by simp
      with False hs y show ?thesis by fastforce
    qed
  qed
qed

lemma mset_NewHeapIterator: "mset (NewHeapIterator less' itrs) = mset (concat itrs)"
proof (induction less' itrs rule: NewHeapIterator.induct)
  case (1 less' itrs)
  show ?case
  proof (cases "pop less' itrs")
    case None
    then have "concat itrs = []" by (simp add: pop_None_iff)
    with None show ?thesis by (simp add: NewHeapIterator.simps [of less' itrs])
  next
    case (Some p)
    obtain x its where p: "p = (x, its)" by (cases p)
    from "1" [OF Some [unfolded p] refl] pop_mset [OF Some [unfolded p]] Some p
    show ?thesis by (simp add: NewHeapIterator.simps [of less' itrs])
  qed
qed

lemma sorted_NewHeapIterator:
  fixes key :: "'a \<Rightarrow> 'k::linorder"
  shows "\<forall>itr \<in> set itrs. sorted (map key itr) \<Longrightarrow>
   sorted (map key (NewHeapIterator (\<lambda>a b. key a < key b) itrs))"
proof (induction "\<lambda>a b. key a < key b" itrs rule: NewHeapIterator.induct)
  case (1 itrs)
  show ?case
  proof (cases "pop (\<lambda>a b. key a < key b) itrs")
    case None
    then show ?thesis by (simp add: NewHeapIterator.simps [of _ itrs])
  next
    case (Some p)
    obtain x its where p: "p = (x, its)" by (cases p)
    note s = Some [unfolded p]
    have a: "\<forall>itr \<in> set its. sorted (map key itr)" using pop_sorted [OF s "1.prems"] .
    have b: "\<forall>y \<in> set (concat itrs). key x \<le> key y" using pop_least [OF s "1.prems"] .
    have "set (NewHeapIterator (\<lambda>a b. key a < key b) its) = set (concat its)"
      using mset_NewHeapIterator [of "\<lambda>a b. key a < key b" its] by (metis set_mset_mset)
    moreover have "set (concat its) \<subseteq> set (concat itrs)"
      using pop_mset [OF s] by (metis set_mset_mset set_mset_add_mset_insert subset_insertI)
    ultimately have c: "\<forall>y \<in> set (NewHeapIterator (\<lambda>a b. key a < key b) its). key x \<le> key y"
      using b by blast
    from "1.hyps" [OF s refl a] c s show ?thesis
      by (simp add: NewHeapIterator.simps [of _ itrs])
  qed
qed

subsection \<open>Tagged tokens and the boundary mapping\<close>

lemma dedupe_never_equal:
  "dedupe (\<lambda>iv iwtr. False) (range_from insts) mrg p cur itr =
     Returns ((case cur of None \<Rightarrow> [] | Some c \<Rightarrow> [c]) @ boundary_map insts p itr)"
proof (induction itr arbitrary: p cur)
  case Nil
  then show ?case by (cases cur) simp_all
next
  case (Cons iv itr)
  obtain v i where iv: "iv = (v, i)" by (cases iv)
  have f: "range_from insts p iv =
    (\<lparr>Instance = insts ! i, MinToken = word_of_int (p + 1), MaxToken = v\<rparr>, uint v)"
    by (simp add: iv range_from_def Value_def Index_def Let_def)
  show ?case
    by (cases cur) (simp_all add: f Cons.IH, simp_all add: iv)
qed

lemma NewInstanceSortMergeIterator_eq:
  "NewInstanceSortMergeIterator instances =
     (sort_tokens instances,
      Returns (boundary_map (sort_tokens instances) (- 1) (heapIter (sort_tokens instances))))"
  by (simp add: NewInstanceSortMergeIterator_def NewDedupingIter_def dedupe_never_equal Let_def)

lemma merged_ranges_eq:
  "merged_ranges instances =
     boundary_map (sort_tokens instances) (- 1) (heapIter (sort_tokens instances))"
  by (simp add: merged_ranges_def NewInstanceSortMergeIterator_eq)

lemma length_boundary_map [simp]: "length (boundary_map insts p itr) = length itr"
  by (induction insts p itr rule: boundary_map.induct) simp_all

lemma map_MaxToken_boundary_map: "map MaxToken (boundary_map insts p itr) = map fst itr"
  by (induction insts p itr rule: boundary_map.induct) simp_all

lemma map_Instance_boundary_map:
  "map Instance (boundary_map insts p itr) = map (\<lambda>iv. insts ! snd iv) itr"
  by (induction insts p itr rule: boundary_map.induct) simp_all

lemma boundary_map_Nil_iff [simp]: "boundary_map insts p itr = [] \<longleftrightarrow> itr = []"
  by (cases itr) auto

lemma MinToken_boundary_map:
  "k < length itr \<Longrightarrow>
   MinToken (boundary_map insts p itr ! k) =
     (if k = 0 then word_of_int (p + 1) else fst (itr ! (k - 1)) + 1)"
proof (induction insts p itr arbitrary: k rule: boundary_map.induct)
  case (1 instances prevBoundary)
  then show ?case by simp
next
  case (2 instances prevBoundary token owner rest)
  show ?case
  proof (cases k)
    case 0
    then show ?thesis by simp
  next
    case (Suc j)
    with "2.prems" have "j < length rest" by simp
    from "2.IH" [OF this] Suc show ?thesis by (cases j) simp_all
  qed
qed

lemma tokenIters_eq:
  "tokenIters insts = map (\<lambda>i. map (\<lambda>v. (v, i)) (Tokens (insts ! i))) [0..<length insts]"
  by (rule nth_equalityI) (simp_all add: tokenIters_def NewIterWithIndex_def nth_enumerate_eq)

lemma set_concat_tokenIters:
  "set (concat (tokenIters insts)) = {(v, i). i < length insts \<and> v \<in> set (Tokens (insts ! i))}"
  by (auto simp: tokenIters_eq)

lemma owners_tokenIters:
  "map (\<lambda>iv. (fst iv, f (insts ! snd iv))) (concat (tokenIters insts)) =
   concat (map (\<lambda>inst. map (\<lambda>t. (t, f inst)) (Tokens inst)) insts)"
proof -
  have "map (\<lambda>iv. (fst iv, f (insts ! snd iv))) (concat (tokenIters insts)) =
        concat (map (\<lambda>i. (\<lambda>inst. map (\<lambda>t. (t, f inst)) (Tokens inst)) (insts ! i)) [0..<length insts])"
    by (simp add: tokenIters_eq map_concat comp_def)
  also have "\<dots> = concat (map (\<lambda>inst. map (\<lambda>t. (t, f inst)) (Tokens inst)) (map ((!) insts) [0..<length insts]))"
    by (simp add: comp_def)
  finally show ?thesis by (simp only: map_nth)
qed

lemma tokenIters_sorted:
  "\<forall>inst \<in> set insts. sorted (Tokens inst) \<Longrightarrow> \<forall>itr \<in> set (tokenIters insts). sorted (map fst itr)"
  by (auto simp: tokenIters_eq comp_def)

lemma length_sort_tokens [simp]: "length (sort_tokens insts) = length insts"
  by (simp add: sort_tokens_def)

lemma map_Id_sort_tokens [simp]: "map Id (sort_tokens insts) = map Id insts"
  by (simp add: sort_tokens_def)

lemma sort_tokens_sorted: "\<forall>inst \<in> set (sort_tokens insts). sorted (Tokens inst)"
  by (auto simp: sort_tokens_def)

lemma mset_all_tokens_sort_tokens:
  "mset (concat (map Tokens (sort_tokens insts))) = mset (concat (map Tokens insts))"
  by (induction insts) (simp_all add: sort_tokens_def)

lemma mset_heapIter: "mset (heapIter insts) = mset (concat (tokenIters insts))"
  by (simp add: heapIter_def mset_NewHeapIterator)

lemma sorted_heapIter:
  "\<forall>inst \<in> set insts. sorted (Tokens inst) \<Longrightarrow> sorted (map fst (heapIter insts))"
proof -
  assume "\<forall>inst \<in> set insts. sorted (Tokens inst)"
  then have "\<forall>itr \<in> set (tokenIters insts). sorted (map fst itr)" by (rule tokenIters_sorted)
  then have "sorted (map fst (NewHeapIterator (\<lambda>a b. fst a < fst b) (tokenIters insts)))"
    by (rule sorted_NewHeapIterator)
  then show ?thesis by (simp add: heapIter_def Value_def [abs_def])
qed

lemma heapIter_index:
  "iv \<in> set (heapIter insts) \<Longrightarrow> snd iv < length insts \<and> fst iv \<in> set (Tokens (insts ! snd iv))"
proof -
  assume "iv \<in> set (heapIter insts)"
  then have "iv \<in> set (concat (tokenIters insts))"
    using mset_heapIter [of insts] by (metis set_mset_mset)
  then have "iv \<in> {(v, i). i < length insts \<and> v \<in> set (Tokens (insts ! i))}"
    by (simp only: set_concat_tokenIters)
  then show ?thesis by (cases iv) simp
qed

lemma mset_map_fst_heapIter:
  "mset (map fst (heapIter insts)) = mset (concat (map Tokens insts))"
proof -
  have "mset (map fst (heapIter insts)) = image_mset fst (mset (heapIter insts))"
    by simp
  also have "\<dots> = image_mset fst (mset (concat (tokenIters insts)))"
    by (simp only: mset_heapIter)
  also have "\<dots> = mset (map fst (map (\<lambda>iv. (fst iv, ())) (concat (tokenIters insts))))"
    by (simp add: comp_def)
  also have "\<dots> = mset (map fst (concat (map (\<lambda>inst. map (\<lambda>t. (t, ())) (Tokens inst)) insts)))"
    using owners_tokenIters [of "\<lambda>_. ()" insts] by simp
  also have "\<dots> = mset (concat (map Tokens insts))"
    by (simp add: map_concat comp_def)
  finally show ?thesis .
qed

subsection \<open>The loop and the coverage of the merged ranges\<close>

lemma ranges_loop_servers:
  "fst (ranges_loop id' it (servers, firstInst, lastToken)) =
     servers @ filter (\<lambda>r. Id (Instance r) = id') it"
  by (induction it arbitrary: servers firstInst lastToken) simp_all

lemma ranges_loop_lastToken:
  "snd (snd (ranges_loop id' it (servers, firstInst, lastToken))) =
     (if it = [] then lastToken else MaxToken (last it))"
  by (induction it arbitrary: servers firstInst lastToken) simp_all

lemma ranges_loop_firstInst:
  "Id (fst (snd (ranges_loop id' it (servers, firstInst, lastToken)))) =
     (if Id firstInst \<noteq> [] then Id firstInst else first_id it)"
  by (induction it arbitrary: servers firstInst lastToken) (simp_all add: first_id_def)

lemma loop_result_eq:
  "loop_result id' instances =
     Returns (ranges_loop id' (merged_ranges instances) ([], zero_InstanceDesc, 0))"
  by (simp add: loop_result_def NewInstanceSortMergeIterator_eq merged_ranges_eq)

lemma appends_wraparound_iff:
  "appends_wraparound id' instances \<longleftrightarrow>
     filter (\<lambda>r. Id (Instance r) = id') (merged_ranges instances) \<noteq> [] \<and>
     first_id (merged_ranges instances) = id'"
proof -
  obtain sv fi lt where r: "ranges_loop id' (merged_ranges instances) ([], zero_InstanceDesc, 0) = (sv, fi, lt)"
    by (cases "ranges_loop id' (merged_ranges instances) ([], zero_InstanceDesc, 0)") auto
  have "sv = filter (\<lambda>r. Id (Instance r) = id') (merged_ranges instances)"
    using ranges_loop_servers [of id' "merged_ranges instances" "[]" zero_InstanceDesc 0]
    by (simp add: r)
  moreover have "Id fi = first_id (merged_ranges instances)"
  proof -
    have "Id fi = Id (fst (snd (ranges_loop id' (merged_ranges instances) ([], zero_InstanceDesc, 0))))"
      by (simp only: r fst_conv snd_conv)
    also have "\<dots> = first_id (merged_ranges instances)"
      by (simp only: ranges_loop_firstInst) (simp add: zero_InstanceDesc_def)
    finally show ?thesis .
  qed
  ultimately show ?thesis
    by (simp add: appends_wraparound_def loop_result_eq r)
qed

lemma GetInstancesWithTokenRanges_eq:
  "GetInstancesWithTokenRanges id' instances =
     Returns (sort_tokens instances,
       filter (\<lambda>r. Id (Instance r) = id') (merged_ranges instances) @
       (if appends_wraparound id' instances
        then [\<lparr>Instance = Instance (hd (filter (\<lambda>r. Id (Instance r) = id') (merged_ranges instances))),
               MinToken = MaxToken (last (merged_ranges instances)) + 1,
               MaxToken = MaxUint32\<rparr>]
        else []))"
proof -
  let ?mr = "merged_ranges instances"
  obtain sv fi lt where r: "ranges_loop id' ?mr ([], zero_InstanceDesc, 0) = (sv, fi, lt)"
    by (cases "ranges_loop id' ?mr ([], zero_InstanceDesc, 0)") auto
  have sv: "sv = filter (\<lambda>r. Id (Instance r) = id') ?mr"
    using ranges_loop_servers [of id' ?mr "[]" zero_InstanceDesc 0] by (simp add: r)
  have lt: "lt = (if ?mr = [] then 0 else MaxToken (last ?mr))"
    using ranges_loop_lastToken [of id' ?mr "[]" zero_InstanceDesc 0] by (simp add: r)
  have ap: "appends_wraparound id' instances \<longleftrightarrow> 0 < length sv \<and> Id fi = id'"
    by (simp add: appends_wraparound_def loop_result_eq r)
  have ne: "sv \<noteq> [] \<Longrightarrow> ?mr \<noteq> []" using sv by auto
  show ?thesis
  proof (cases "appends_wraparound id' instances")
    case True
    with ap have "sv \<noteq> []" by simp
    with True ap ne lt sv show ?thesis
      by (simp add: GetInstancesWithTokenRanges_def loop_result_eq r
          NewInstanceSortMergeIterator_eq [of instances] hd_conv_nth)
  next
    case False
    with ap sv show ?thesis
      by (simp add: GetInstancesWithTokenRanges_def loop_result_eq r
          NewInstanceSortMergeIterator_eq [of instances])
  qed
qed

lemma Cmp_Overlap_iff: "Cmp r t = Overlap \<longleftrightarrow> MinToken r \<le> t \<and> t \<le> MaxToken r"
  by (auto simp: Cmp_def)

lemma cover_step:
  fixes lo t v L :: u32
  assumes "v \<noteq> - 1" "lo \<le> v + 1" "v \<le> L"
  shows "(if lo \<le> t \<and> t \<le> v then 1 else 0) + (if v + 1 \<le> t \<and> t \<le> L then 1 else 0) =
         (if lo \<le> t \<and> t \<le> L then (1::nat) else 0)"
proof -
  have a: "v + 1 \<le> t \<longleftrightarrow> v < t" using assms(1) by (simp add: inc_less_eq_iff)
  show ?thesis
  proof (cases "v < t")
    case True
    then have "lo \<le> t" using assms(2) a by auto
    with True show ?thesis by (auto simp: a)
  next
    case False
    then have "t \<le> L" using assms(3) by auto
    with False show ?thesis by (auto simp: a)
  qed
qed

lemma succ_mono:
  fixes v w :: u32
  assumes "v \<le> w" "w \<noteq> - 1"
  shows "v + 1 \<le> w + 1"
proof -
  have "w < w + 1" using assms(2) by (metis inc_less_eq_iff order_refl)
  with assms(1) show ?thesis by (auto simp: inc_less_eq_iff)
qed

lemma boundary_cover:
  assumes "sorted (map fst itr)" "\<forall>iv \<in> set itr. fst iv \<noteq> - 1"
    and "\<forall>iv \<in> set itr. word_of_int (p + 1) \<le> fst iv + 1"
  shows "length (filter (\<lambda>r. Cmp r t = Overlap) (boundary_map insts p itr)) =
         (if itr \<noteq> [] \<and> word_of_int (p + 1) \<le> t \<and> t \<le> fst (last itr) then 1 else 0)"
  using assms
proof (induction insts p itr rule: boundary_map.induct)
  case (1 instances prevBoundary)
  then show ?case by simp
next
  case (2 instances prevBoundary token owner rest)
  let ?lo = "word_of_int (prevBoundary + 1) :: u32"
  have lo': "(word_of_int (uint token + 1) :: u32) = token + 1" by simp
  have s: "sorted (map fst rest)" and m: "\<forall>iv \<in> set rest. fst iv \<noteq> - 1"
    and ge: "\<forall>iv \<in> set rest. token \<le> fst iv" and tk: "token \<noteq> - 1"
    and lo: "?lo \<le> token + 1"
    using "2.prems" by auto
  have "\<forall>iv \<in> set rest. token + 1 \<le> fst iv + 1"
    using ge m by (auto intro: succ_mono)
  then have IH: "length (filter (\<lambda>r. Cmp r t = Overlap) (boundary_map instances (uint token) rest)) =
         (if rest \<noteq> [] \<and> token + 1 \<le> t \<and> t \<le> fst (last rest) then 1 else 0)"
    using "2.IH" [OF s m] by (simp only: lo')
  show ?case
  proof (cases "rest = []")
    case True
    then show ?thesis by (simp add: Cmp_Overlap_iff)
  next
    case False
    then have L: "token \<le> fst (last rest)" using ge by simp
    have "length (filter (\<lambda>r. Cmp r t = Overlap)
            (boundary_map instances prevBoundary ((token, owner) # rest))) =
          (if ?lo \<le> t \<and> t \<le> token then 1 else 0) +
          length (filter (\<lambda>r. Cmp r t = Overlap) (boundary_map instances (uint token) rest))"
      by (simp add: Cmp_Overlap_iff)
    also have "\<dots> = (if ?lo \<le> t \<and> t \<le> token then 1 else 0) +
          (if token + 1 \<le> t \<and> t \<le> fst (last rest) then 1 else 0)"
      using False by (simp only: IH) simp
    also have "\<dots> = (if ?lo \<le> t \<and> t \<le> fst (last rest) then 1 else 0)"
      by (rule cover_step [OF tk lo L])
    finally show ?thesis using False by simp
  qed
qed

lemma boundary_ordered:
  assumes "sorted_wrt (<) (map fst itr)"
    and "\<forall>iv \<in> set itr. word_of_int (p + 1) \<le> fst iv"
  shows "\<forall>r \<in> set (boundary_map insts p itr). MinToken r \<le> MaxToken r"
  using assms
proof (induction insts p itr rule: boundary_map.induct)
  case (1 instances prevBoundary)
  then show ?case by simp
next
  case (2 instances prevBoundary token owner rest)
  have lo': "(word_of_int (uint token + 1) :: u32) = token + 1" by simp
  have "\<forall>iv \<in> set rest. token + 1 \<le> fst iv"
    using "2.prems"(1) by (auto intro: inc_le)
  then have "\<forall>r \<in> set (boundary_map instances (uint token) rest). MinToken r \<le> MaxToken r"
    using "2.IH" "2.prems"(1) by (simp only: lo') simp
  with "2.prems"(2) show ?case by simp
qed

subsection \<open>Outcomes of the single-token partitioner\<close>

lemma single_token_outcome:
  assumes "\<forall>inst \<in> set instances. Tokens inst \<noteq> []"
    and "set (srt instances) = set instances"
  shows "id' \<notin> set (map Id instances) \<Longrightarrow>
           GetInstanceWithTokenRange srt id' instances =
             Returns (srt instances, Inl ErrInstanceNotFound)"
    and "id' \<in> set (map Id instances) \<Longrightarrow>
           \<exists>b. GetInstanceWithTokenRange srt id' instances =
             Returns (srt instances, Inr b)"
proof -
  have np: "\<not> (2 \<le> length instances \<and> [] \<in> set (map Tokens instances))"
    using assms(1) by auto
  have iff: "IndexFunc (srt instances) (\<lambda>inst. Id inst = id') = - 1 \<longleftrightarrow>
             id' \<notin> set (map Id instances)"
    by (auto simp: IndexFunc_none_iff assms(2))
  show "id' \<notin> set (map Id instances) \<Longrightarrow>
           GetInstanceWithTokenRange srt id' instances =
             Returns (srt instances, Inl ErrInstanceNotFound)"
    using iff by (simp add: GetInstanceWithTokenRange_def np Let_def del: set_map)
  show "id' \<in> set (map Id instances) \<Longrightarrow>
           \<exists>b. GetInstanceWithTokenRange srt id' instances =
             Returns (srt instances, Inr b)"
    using iff by (simp add: GetInstanceWithTokenRange_def np Let_def del: set_map)
qed

lemma filter_eq_upt: "a < n \<Longrightarrow> filter (\<lambda>k. k = a) [0..<n] = [a]"
proof (induction n)
  case 0
  then show ?case by simp
next
  case (Suc n)
  show ?case
  proof (cases "a = n")
    case True
    have "filter (\<lambda>k. k = n) [0..<n] = []" by (auto simp: filter_empty_conv)
    with True show ?thesis by simp
  next
    case False
    with Suc show ?thesis by simp
  qed
qed

lemma unique_slot:
  fixes n S M x :: nat
  assumes "0 < n" "0 < S" "S * n \<le> M" "x \<le> M"
  shows "length (filter (\<lambda>k. k * S \<le> x \<and> x \<le> (if k = n - 1 then M else k * S + S - 1)) [0..<n]) = 1"
proof -
  define k0 where "k0 = min (x div S) (n - 1)"
  have "k0 \<le> n - 1" by (simp add: k0_def)
  then have k0: "k0 < n" using assms(1) by arith
  have iff: "(k * S \<le> x \<and> x \<le> (if k = n - 1 then M else k * S + S - 1)) \<longleftrightarrow> k = k0"
    if "k < n" for k
  proof (cases "k = n - 1")
    case True
    have "(n - 1) * S \<le> x \<longleftrightarrow> n - 1 \<le> x div S"
      using assms(2) by (simp add: less_eq_div_iff_mult_less_eq)
    then show ?thesis using True assms(4) by (auto simp: k0_def min_def)
  next
    case False
    with that have lt: "k < n - 1" by simp
    show ?thesis
    proof
      assume a: "k * S \<le> x \<and> x \<le> (if k = n - 1 then M else k * S + S - 1)"
      then have "S * k \<le> x" "x < S * Suc k" using False assms(2) by (auto simp: mult.commute)
      then have "x div S = k" by (rule div_nat_eqI)
      then show "k = k0" using lt by (simp add: k0_def)
    next
      assume "k = k0"
      then have k: "k = x div S" using lt by (auto simp: k0_def min_def split: if_splits)
      have "x div S * S \<le> x" by simp
      moreover have "x < S + S * (x div S)" using assms(2) by (rule dividend_less_times_div)
      ultimately show "k * S \<le> x \<and> x \<le> (if k = n - 1 then M else k * S + S - 1)"
        using False k by (simp add: mult.commute)
    qed
  qed
  have "filter (\<lambda>k. k * S \<le> x \<and> x \<le> (if k = n - 1 then M else k * S + S - 1)) [0..<n] =
        filter (\<lambda>k. k = k0) [0..<n]"
  proof (rule filter_cong [OF refl])
    fix k assume "k \<in> set [0..<n]"
    then have "k < n" by simp
    then show "(k * S \<le> x \<and> x \<le> (if k = n - 1 then M else k * S + S - 1)) \<longleftrightarrow> k = k0"
      by (rule iff)
  qed
  then show ?thesis using filter_eq_upt [OF k0] by simp
qed

lemma Cmp_bounds_Overlap_iff:
  "Cmp_bounds b fp = Overlap \<longleftrightarrow> unat (Min b) \<le> unat fp \<and> unat fp \<le> unat (Max b)"
  by (auto simp: Cmp_bounds_def word_le_nat_alt word_less_nat_alt)

lemma range_of_nth:
  assumes s: "sorts_by first_token srt"
    and len: "length instances < 2 ^ 63"
    and tok: "\<forall>inst \<in> set instances. Tokens inst \<noteq> []"
    and ids: "distinct (map Id instances)"
    and k: "k < length instances"
  shows "\<exists>b. range_of srt (Id (srt instances ! k)) instances = Some b
      \<and> unat (Min b) = k * ((2 ^ 64 - 1) div length instances)
      \<and> unat (Max b) =
          (if k = length instances - 1 then 2 ^ 64 - 1
           else k * ((2 ^ 64 - 1) div length instances)
                + (2 ^ 64 - 1) div length instances - 1)"
proof -
  let ?ys = "srt instances"
  have l: "length ?ys = length instances" using s by (rule sorts_by_length)
  have "mset (map Id ?ys) = mset (map Id instances)" by (simp add: sorts_by_mset [OF s])
  then have d: "distinct (map Id ?ys)" using ids by (metis mset_eq_imp_distinct_iff)
  have "IndexFunc ?ys (\<lambda>inst. Id inst = Id (?ys ! k)) = int k"
    using d k by (intro IndexFunc_nth_distinct) (simp_all add: l)
  moreover have "length instances < 2 ^ 64" using len by simp
  moreover have "length instances < 2 \<or> [] \<notin> set (map Tokens instances)"
    using tok by auto
  ultimately have "\<exists>b. GetInstanceWithTokenRange srt (Id (?ys ! k)) instances = Returns (?ys, Inr b)
        \<and> unat (Min b) = k * ((2 ^ 64 - 1) div length instances)
        \<and> unat (Max b) =
            (if k = length instances - 1 then 2 ^ 64 - 1
             else k * ((2 ^ 64 - 1) div length instances)
                  + (2 ^ 64 - 1) div length instances - 1)"
    using l by (intro single_token_slot)
  then show ?thesis
    by (auto simp: range_of_def)
qed

text \<open>
  With pairwise distinct first tokens and ids, the position of an instance in ascending
  order of first token is the number of instances with a smaller first token, whatever
  the sorting algorithm.
\<close>

lemma filter_less_take:
  fixes key :: "'a \<Rightarrow> 'k::linorder"
  assumes "sorted_wrt (<) (map key ys)" "k < length ys"
  shows "filter (\<lambda>y. key y < key (ys ! k)) ys = take k ys"
  using assms
proof (induction ys arbitrary: k)
  case Nil
  then show ?case by simp
next
  case (Cons y ys)
  show ?case
  proof (cases k)
    case 0
    have "\<forall>z \<in> set ys. \<not> key z < key y" using Cons.prems(1) by (auto simp: not_less less_imp_le)
    then have "filter (\<lambda>z. key z < key y) ys = []" by (simp add: filter_empty_conv)
    with 0 show ?thesis by simp
  next
    case (Suc j)
    with Cons.prems have j: "j < length ys" and s: "sorted_wrt (<) (map key ys)" by simp_all
    have "key y < key (ys ! j)" using Cons.prems(1) j by simp
    with Cons.IH [OF s j] Suc show ?thesis by simp
  qed
qed

lemma ordinal_counts_smaller:
  assumes srt: "sorts_by first_token srt"
    and "distinct (map first_token instances)" "distinct (map Id instances)"
    and "inst \<in> set instances"
  shows "IndexFunc (srt instances) (\<lambda>x. Id x = Id inst) =
         int (smaller_first_tokens inst instances)"
proof -
  let ?ys = "srt instances"
  have m: "mset ?ys = mset instances" using srt by (rule sorts_by_mset)
  have "mset (map first_token ?ys) = mset (map first_token instances)" by (simp add: m)
  then have "distinct (map first_token ?ys)" using assms(2) by (metis mset_eq_imp_distinct_iff)
  then have s: "sorted_wrt (<) (map first_token ?ys)"
    using sorts_by_sorted [OF srt, of instances] by (simp add: strict_sorted_iff)
  have "mset (map Id ?ys) = mset (map Id instances)" by (simp add: m)
  then have d: "distinct (map Id ?ys)" using assms(3) by (metis mset_eq_imp_distinct_iff)
  have "inst \<in> set ?ys" using assms(4) by (simp add: sorts_by_set [OF srt])
  then obtain k where k: "k < length ?ys" "?ys ! k = inst"
    unfolding in_set_conv_nth by blast
  have "IndexFunc ?ys (\<lambda>x. Id x = Id (?ys ! k)) = int k"
    using d k(1) by (rule IndexFunc_nth_distinct)
  moreover have "length (filter (\<lambda>x. first_token x < first_token inst) instances) = k"
  proof -
    have "length (filter (\<lambda>x. first_token x < first_token inst) instances) =
          size (filter_mset (\<lambda>x. first_token x < first_token inst) (mset instances))"
      by (simp only: mset_filter [symmetric] size_mset)
    also have "\<dots> = length (filter (\<lambda>x. first_token x < first_token (?ys ! k)) ?ys)"
      by (simp only: m [symmetric] mset_filter [symmetric] size_mset k(2))
    also have "\<dots> = k" using filter_less_take [OF s k(1)] k(1) by simp
    finally show ?thesis .
  qed
  ultimately show ?thesis by (simp add: k(2) smaller_first_tokens_def)
qed

text \<open>In a sorted list the first element has the least key and the last the greatest.\<close>

lemma sorted_hd_least:
  fixes key :: "'a \<Rightarrow> 'k::linorder"
  assumes "sorted (map key ys)" "x \<in> set ys"
  shows "key (hd ys) \<le> key x"
  using assms by (cases ys) auto

lemma sorted_last_greatest:
  fixes key :: "'a \<Rightarrow> 'k::linorder"
  assumes "sorted (map key ys)" "x \<in> set ys"
  shows "key x \<le> key (last ys)"
  using assms by (induction ys) (auto split: if_splits)

subsection \<open>Owners, order and coverage of the merged ranges\<close>

lemma owner_in_snapshot:
  assumes "r \<in> set (merged_ranges instances)"
  shows "Instance r \<in> set (sort_tokens instances)"
    and "MaxToken r \<in> set (Tokens (Instance r))"
    and "Id (Instance r) \<in> set (map Id instances)"
proof -
  let ?insts = "sort_tokens instances"
  let ?h = "heapIter ?insts"
  from assms obtain k where k: "k < length ?h" "r = boundary_map ?insts (- 1) ?h ! k"
    by (auto simp: merged_ranges_eq in_set_conv_nth)
  have "Instance r = map Instance (boundary_map ?insts (- 1) ?h) ! k" using k by simp
  then have i: "Instance r = ?insts ! snd (?h ! k)" using k(1)
    by (simp only: map_Instance_boundary_map) simp
  have "MaxToken r = map MaxToken (boundary_map ?insts (- 1) ?h) ! k" using k by simp
  then have m: "MaxToken r = fst (?h ! k)" using k(1)
    by (simp only: map_MaxToken_boundary_map) simp
  have "?h ! k \<in> set ?h" using k(1) by simp
  from heapIter_index [OF this] have b: "snd (?h ! k) < length ?insts"
    "fst (?h ! k) \<in> set (Tokens (?insts ! snd (?h ! k)))" by auto
  show "Instance r \<in> set ?insts" using i b(1) by simp
  moreover have "Id ` set ?insts = set (map Id instances)"
    by (metis map_Id_sort_tokens set_map)
  ultimately show "Id (Instance r) \<in> set (map Id instances)" by blast
  show "MaxToken r \<in> set (Tokens (Instance r))" using i m b(2) by simp
qed

lemma pairs_boundary_map:
  "map (\<lambda>r. (MaxToken r, Instance r)) (boundary_map insts p itr) =
   map (\<lambda>iv. (fst iv, insts ! snd iv)) itr"
  by (induction insts p itr rule: boundary_map.induct) simp_all

lemma mset_pairs_heapIter:
  "mset (map (\<lambda>iv. (fst iv, insts ! snd iv)) (heapIter insts)) =
   mset (concat (map (\<lambda>inst. map (\<lambda>t. (t, inst)) (Tokens inst)) insts))"
proof -
  have "mset (map (\<lambda>iv. (fst iv, insts ! snd iv)) (heapIter insts)) =
        image_mset (\<lambda>iv. (fst iv, insts ! snd iv)) (mset (heapIter insts))"
    by simp
  also have "\<dots> = image_mset (\<lambda>iv. (fst iv, insts ! snd iv)) (mset (concat (tokenIters insts)))"
    by (simp only: mset_heapIter)
  also have "\<dots> = mset (map (\<lambda>iv. (fst iv, insts ! snd iv)) (concat (tokenIters insts)))"
    by simp
  also have "\<dots> = mset (concat (map (\<lambda>inst. map (\<lambda>t. (t, inst)) (Tokens inst)) insts))"
    using owners_tokenIters [of "\<lambda>x. x" insts] by simp
  finally show ?thesis .
qed

lemma mset_merged_tokens:
  "mset (map fst (heapIter (sort_tokens insts))) = mset (all_tokens insts)"
  by (simp only: mset_map_fst_heapIter mset_all_tokens_sort_tokens all_tokens_def)

lemma sorted_merged: "sorted (map fst (heapIter (sort_tokens insts)))"
  by (rule sorted_heapIter) (rule sort_tokens_sorted)

lemma strictly_sorted_merged:
  assumes "distinct (all_tokens insts)"
  shows "sorted_wrt (<) (map fst (heapIter (sort_tokens insts)))"
proof -
  have "distinct (map fst (heapIter (sort_tokens insts)))"
    using assms mset_merged_tokens [of insts] by (metis mset_eq_imp_distinct_iff)
  with sorted_merged [of insts] show ?thesis by (simp add: strict_sorted_iff)
qed

lemma map_MaxToken_merged:
  "map MaxToken (merged_ranges insts) = map fst (heapIter (sort_tokens insts))"
  by (simp add: merged_ranges_eq map_MaxToken_boundary_map)

lemma length_merged_ranges: "length (merged_ranges insts) = length (all_tokens insts)"
proof -
  have "length (merged_ranges insts) = size (mset (map fst (heapIter (sort_tokens insts))))"
    by (simp add: merged_ranges_eq)
  also have "\<dots> = length (all_tokens insts)"
    by (simp only: mset_merged_tokens size_mset)
  finally show ?thesis .
qed

lemma first_id_owner:
  assumes "it \<noteq> []"
  shows "\<exists>r \<in> set it. first_id it = Id (Instance r)"
proof (cases "find (\<lambda>r. Id (Instance r) \<noteq> []) it")
  case None
  then have "\<forall>r \<in> set it. Id (Instance r) = []" by (auto simp: find_None_iff)
  with assms None show ?thesis by (cases it) (auto simp: first_id_def)
next
  case (Some r)
  then have "r \<in> set it" by (auto simp: find_Some_iff)
  with Some show ?thesis by (auto simp: first_id_def)
qed

lemma first_id_hd:
  assumes "it \<noteq> []" "\<forall>r \<in> set it. Id (Instance r) \<noteq> []"
  shows "first_id it = Id (Instance (hd it))"
  using assms by (cases it) (auto simp: first_id_def)

lemma appends_iff_first:
  "appends_wraparound id' instances \<longleftrightarrow>
     merged_ranges instances \<noteq> [] \<and> first_id (merged_ranges instances) = id'"
proof (cases "merged_ranges instances = []")
  case True
  then show ?thesis by (simp add: appends_wraparound_iff)
next
  case False
  from first_id_owner [OF False] obtain r where
    r: "r \<in> set (merged_ranges instances)" "first_id (merged_ranges instances) = Id (Instance r)"
    by blast
  then have "first_id (merged_ranges instances) = id' \<Longrightarrow>
    filter (\<lambda>r. Id (Instance r) = id') (merged_ranges instances) \<noteq> []"
    by (auto simp: filter_empty_conv)
  with False show ?thesis by (auto simp: appends_wraparound_iff)
qed

lemma merged_ranges_Nil_iff: "merged_ranges instances = [] \<longleftrightarrow> all_tokens instances = []"
  using length_merged_ranges [of instances] by (metis length_0_conv)

lemma set_merged_tokens:
  "set (map MaxToken (merged_ranges instances)) = set (all_tokens instances)"
  using mset_merged_tokens [of instances] by (simp only: map_MaxToken_merged) (metis set_mset_mset)

lemma first_range_least:
  assumes "merged_ranges instances \<noteq> []" "u \<in> set (all_tokens instances)"
  shows "MaxToken (hd (merged_ranges instances)) \<le> u"
proof -
  let ?ts = "map MaxToken (merged_ranges instances)"
  have s: "sorted ?ts" by (simp only: map_MaxToken_merged sorted_merged)
  have "u \<in> set ?ts" using assms(2) by (simp only: set_merged_tokens)
  moreover have "?ts \<noteq> []" using assms(1) by simp
  ultimately have "hd ?ts \<le> u" using s by (cases ?ts) auto
  then show ?thesis using assms(1) by (simp add: hd_map)
qed

lemma sort_tokens_original:
  assumes "x \<in> set (sort_tokens instances)"
  shows "\<exists>inst \<in> set instances. Id inst = Id x \<and> set (Tokens inst) = set (Tokens x)"
  using assms by (auto simp: sort_tokens_def)

lemma smallest_token_owners_iff:
  "id' \<in> set (smallest_token_owners instances) \<longleftrightarrow>
     (\<exists>inst \<in> set instances. Id inst = id' \<and>
        (\<exists>t \<in> set (Tokens inst). \<forall>u \<in> set (all_tokens instances). t \<le> u))"
  by (auto simp: smallest_token_owners_def list_ex_iff list_all_iff)

lemma first_range_owner:
  assumes "merged_ranges instances \<noteq> []"
  shows "Id (Instance (hd (merged_ranges instances))) \<in> set (smallest_token_owners instances)"
proof -
  let ?r = "hd (merged_ranges instances)"
  have r: "?r \<in> set (merged_ranges instances)" using assms by simp
  from owner_in_snapshot(1) [OF r] sort_tokens_original obtain inst where
    inst: "inst \<in> set instances" "Id inst = Id (Instance ?r)"
      "set (Tokens inst) = set (Tokens (Instance ?r))"
    by blast
  have "MaxToken ?r \<in> set (Tokens inst)" using owner_in_snapshot(2) [OF r] inst(3) by simp
  moreover have "\<forall>u \<in> set (all_tokens instances). MaxToken ?r \<le> u"
    using first_range_least [OF assms] by blast
  ultimately show ?thesis using inst(1,2) unfolding smallest_token_owners_iff by blast
qed

lemma nonempty_ids_ranges:
  assumes "\<forall>inst \<in> set instances. Id inst \<noteq> []"
  shows "\<forall>r \<in> set (merged_ranges instances). Id (Instance r) \<noteq> []"
proof
  fix r assume "r \<in> set (merged_ranges instances)"
  from owner_in_snapshot(3) [OF this] assms show "Id (Instance r) \<noteq> []" by auto
qed

lemma ranges_of_eq:
  "ranges_of id' instances =
     filter (\<lambda>r. Id (Instance r) = id') (merged_ranges instances) @
       (if appends_wraparound id' instances
        then [\<lparr>Instance = Instance (hd (filter (\<lambda>r. Id (Instance r) = id') (merged_ranges instances))),
               MinToken = MaxToken (last (merged_ranges instances)) + 1,
               MaxToken = MaxUint32\<rparr>]
        else [])"
  by (simp add: ranges_of_def GetInstancesWithTokenRanges_eq)

lemma merged_ranges_ordered:
  assumes "distinct (all_tokens instances)"
  shows "\<forall>r \<in> set (merged_ranges instances). MinToken r \<le> MaxToken r"
proof -
  have "\<forall>iv \<in> set (heapIter (sort_tokens instances)). (word_of_int (- 1 + 1) :: u32) \<le> fst iv"
    by simp
  with strictly_sorted_merged [OF assms] show ?thesis
    unfolding merged_ranges_eq by (rule boundary_ordered)
qed

lemma sum_list_indicator:
  assumes "distinct xs" "w \<in> set xs"
  shows "sum_list (map (\<lambda>x. if x = w then c else (0::nat)) xs) = c"
  using assms by (induction xs) auto

lemma count_by_owner:
  assumes "distinct ids" "\<forall>r \<in> set rs. g r \<in> set ids"
  shows "sum_list (map (\<lambda>i. length (filter P (filter (\<lambda>r. g r = i) rs))) ids) =
         length (filter P rs)"
  using assms(2)
proof (induction rs)
  case Nil
  then show ?case by simp
next
  case (Cons r rs)
  have "sum_list (map (\<lambda>i. length (filter P (filter (\<lambda>r. g r = i) (r # rs)))) ids) =
        sum_list (map (\<lambda>i. (if i = g r then (if P r then 1 else 0) else 0) +
                         length (filter P (filter (\<lambda>r. g r = i) rs))) ids)"
    by (rule arg_cong [where f = sum_list], rule map_cong) auto
  also have "\<dots> = sum_list (map (\<lambda>i. if i = g r then (if P r then 1 else 0) else 0) ids) +
        sum_list (map (\<lambda>i. length (filter P (filter (\<lambda>r. g r = i) rs))) ids)"
    by (rule sum_list_addf)
  also have "\<dots> = (if P r then 1 else 0) + length (filter P rs)"
    using Cons sum_list_indicator [OF assms(1), of "g r" "if P r then 1 else 0"] by simp
  finally show ?case by simp
qed

lemma merged_cover:
  assumes "\<forall>u \<in> set (all_tokens instances). u \<noteq> MaxUint32"
  shows "length (filter (\<lambda>r. Cmp r t = Overlap) (merged_ranges instances)) =
         (if merged_ranges instances \<noteq> [] \<and> t \<le> MaxToken (last (merged_ranges instances))
          then 1 else 0)"
proof -
  let ?h = "heapIter (sort_tokens instances)"
  have "set (map fst ?h) = set (all_tokens instances)"
    using mset_merged_tokens [of instances] by (metis set_mset_mset)
  then have a: "\<forall>iv \<in> set ?h. fst iv \<noteq> - 1" using assms by (auto simp: MaxUint32_def)
  have b: "\<forall>iv \<in> set ?h. (word_of_int (- 1 + 1) :: u32) \<le> fst iv + 1" by simp
  have c: "?h \<noteq> [] \<Longrightarrow> fst (last ?h) = MaxToken (last (merged_ranges instances))"
  proof -
    assume ne: "?h \<noteq> []"
    then have "fst (last ?h) = last (map fst ?h)" by (simp add: last_map)
    also have "\<dots> = last (map MaxToken (merged_ranges instances))"
      by (simp only: map_MaxToken_merged)
    also have "\<dots> = MaxToken (last (merged_ranges instances))"
      using ne by (simp add: last_map merged_ranges_eq)
    finally show ?thesis .
  qed
  have d: "merged_ranges instances \<noteq> [] \<longleftrightarrow> ?h \<noteq> []" by (simp add: merged_ranges_eq)
  from boundary_cover [OF sorted_merged a b, of t "sort_tokens instances"] c d
  show ?thesis by (auto simp: merged_ranges_eq)
qed

lemma sort_tokens_again: "sort_tokens (sort_tokens instances) = sort_tokens instances"
  by (simp add: sort_tokens_def comp_def sort_key_id_if_sorted)

lemma GetInstancesWithTokenRanges_again:
  "GetInstancesWithTokenRanges id2 (sort_tokens instances) =
   GetInstancesWithTokenRanges id2 instances"
proof -
  have "NewInstanceSortMergeIterator (sort_tokens instances) =
        NewInstanceSortMergeIterator instances"
    by (simp add: NewInstanceSortMergeIterator_def sort_tokens_again Let_def)
  then show ?thesis
    by (simp only: GetInstancesWithTokenRanges_def loop_result_def)
qed

section \<open>The claims\<close>

text \<open>
  Claim C1, amended. Take a snapshot that holds at least one token and no token equal to
  \<^verbatim>\<open>math.MaxUint32\<close>. Then every token \<open>t\<close> of the 32-bit keyspace lies in exactly
  one returned range, counted over the range lists that \<^verbatim>\<open>GetInstancesWithTokenRanges\<close>
  returns for the ids present in the snapshot (each id once): no gap, no overlap, the
  segment above the largest token included.
\<close>

theorem multi_token_cover:
  assumes "all_tokens instances \<noteq> []"
    and "\<forall>u \<in> set (all_tokens instances). u \<noteq> MaxUint32"
  shows "cover_count t instances = 1"
proof -
  let ?mr = "merged_ranges instances"
  let ?ids = "remdups (map Id instances)"
  let ?L = "MaxToken (last ?mr)"
  let ?P = "\<lambda>r. Cmp r t = Overlap"
  have ne: "?mr \<noteq> []" using assms(1) by (simp add: merged_ranges_Nil_iff)
  have "?L \<in> set (map MaxToken ?mr)" using ne by simp
  then have "?L \<in> set (all_tokens instances)" by (simp only: set_merged_tokens)
  then have L: "?L \<noteq> - 1" using assms(2) by (auto simp: MaxUint32_def)
  from first_id_owner [OF ne] obtain r where
    r: "r \<in> set ?mr" "first_id ?mr = Id (Instance r)" by blast
  have w: "first_id ?mr \<in> set ?ids" using owner_in_snapshot(3) [OF r(1)] r(2) by simp
  have own: "\<forall>r \<in> set ?mr. Id (Instance r) \<in> set ?ids"
    using owner_in_snapshot(3) [of _ instances] by simp
  have each: "\<And>i. length (filter ?P (ranges_of i instances)) =
      length (filter ?P (filter (\<lambda>r. Id (Instance r) = i) ?mr)) +
      (if i = first_id ?mr then (if ?L + 1 \<le> t then 1 else 0) else 0)"
    using ne by (simp add: ranges_of_eq appends_iff_first Cmp_Overlap_iff MaxUint32_def)
  have "cover_count t instances =
      sum_list (map (\<lambda>i. length (filter ?P (filter (\<lambda>r. Id (Instance r) = i) ?mr)) +
      (if i = first_id ?mr then (if ?L + 1 \<le> t then 1 else 0) else 0)) ?ids)"
    unfolding cover_count_def by (simp only: each)
  also have "\<dots> = sum_list (map (\<lambda>i. length (filter ?P (filter (\<lambda>r. Id (Instance r) = i) ?mr))) ?ids) +
      sum_list (map (\<lambda>i. if i = first_id ?mr then (if ?L + 1 \<le> t then 1 else 0) else 0) ?ids)"
    by (rule sum_list_addf)
  also have "\<dots> = length (filter ?P ?mr) + (if ?L + 1 \<le> t then 1 else 0)"
    using count_by_owner [OF _ own, of ?P] sum_list_indicator [OF _ w] by simp
  also have "\<dots> = (if t \<le> ?L then 1 else 0) + (if ?L + 1 \<le> t then 1 else 0)"
    using ne by (simp add: merged_cover [OF assms(2)])
  also have "\<dots> = 1" using L by (auto simp: inc_less_eq_iff)
  finally show ?thesis .
qed

text \<open>
  The theorem at the snapshot of the spec's scenario B (tokens 50 and 10 for one
  instance, 30 for the other) and the token 40.
\<close>

theorem multi_token_cover_witness:
  "cover_count 40 [\<lparr>Id = ''a'', Tokens = [50, 10]\<rparr>, \<lparr>Id = ''b'', Tokens = [30]\<rparr>] = 1"
  using multi_token_cover [of "[\<lparr>Id = ''a'', Tokens = [50, 10]\<rparr>, \<lparr>Id = ''b'', Tokens = [30]\<rparr>]" 40]
  by (simp add: all_tokens_def MaxUint32_def)

text \<open>
  The claim as stated fails: in a snapshot whose only instance has no token, no range
  holds the token 0; and with the largest token equal to \<^verbatim>\<open>math.MaxUint32\<close> the token
  11 lies in two ranges.
\<close>

theorem multi_token_cover_counterexample:
  "cover_count 0 [\<lparr>Id = ''a'', Tokens = []\<rparr>] = 0
   \<and> cover_count 11 [\<lparr>Id = ''a'', Tokens = [10]\<rparr>, \<lparr>Id = ''b'', Tokens = [4294967295]\<rparr>] = 2"
  by code_simp

text \<open>
  Claim C2. Take a snapshot of \<open>n \<ge> 1\<close> instances with pairwise distinct ids, each
  holding a token, and any sorting algorithm that keeps the promise of \<^verbatim>\<open>sort.Slice\<close>.
  Then \<^verbatim>\<open>GetInstanceWithTokenRange\<close> returns bounds for every id of the snapshot; for
  every 64-bit fingerprint exactly one id of the snapshot has bounds that classify it as
  Overlap; the bounds that start at 0 go to an instance no first token is below, and the
  bounds that end at \<^verbatim>\<open>math.MaxUint64\<close> go to an instance no first token is above.
  Which instance that is among several with the same first token is left open.
\<close>

theorem single_token_cover:
  assumes "sorts_by first_token sort_Slice"
    and "instances \<noteq> []"
    and "length instances < 2 ^ 63"
    and "\<forall>inst \<in> set instances. Tokens inst \<noteq> []"
    and "distinct (map Id instances)"
  shows "(\<forall>fp. length (owners_of sort_Slice fp instances) = 1)
       \<and> (\<forall>id' \<in> set (map Id instances). range_of sort_Slice id' instances \<noteq> None)
       \<and> (\<exists>inst \<in> set instances.
             (\<forall>x \<in> set instances. first_token inst \<le> first_token x)
             \<and> (\<exists>b. range_of sort_Slice (Id inst) instances = Some b \<and> Min b = 0))
       \<and> (\<exists>inst \<in> set instances.
             (\<forall>x \<in> set instances. first_token x \<le> first_token inst)
             \<and> (\<exists>b. range_of sort_Slice (Id inst) instances = Some b \<and> Max b = MaxUint64))"
proof -
  let ?ys = "sort_Slice instances"
  let ?n = "length instances"
  let ?S = "(2 ^ 64 - 1 :: nat) div ?n"
  let ?M = "2 ^ 64 - 1 :: nat"
  note srt = assms(1)
  note nth = range_of_nth [OF assms(1,3,4,5)]
  have l: "length ?ys = ?n" using srt by (rule sorts_by_length)
  have st: "set ?ys = set instances" using srt by (rule sorts_by_set)
  have so: "sorted (map first_token ?ys)" using srt by (rule sorts_by_sorted)
  have n: "0 < ?n" using assms(2) by simp
  have n64: "?n < 2 ^ 64" using assms(3) by simp
  have ysne: "?ys \<noteq> []" using assms(2) l by (metis length_0_conv)
  have S: "0 < ?S" using n n64 by (simp add: div_greater_zero_iff)
  have Sn: "?S * ?n \<le> ?M" by (simp add: mult.commute)
  have ids: "map Id ?ys = map (\<lambda>k. Id (?ys ! k)) [0..<?n]"
    by (rule nth_equalityI) (simp_all add: l)
  have m: "mset (map Id ?ys) = mset (map Id instances)"
    by (simp add: sorts_by_mset [OF srt])
  have 1: "\<forall>fp. length (owners_of sort_Slice fp instances) = 1"
  proof
    fix fp :: u64
    let ?Q = "\<lambda>id'. case range_of sort_Slice id' instances of None \<Rightarrow> False
                    | Some b \<Rightarrow> Cmp_bounds b fp = Overlap"
    let ?x = "unat fp"
    have x: "?x \<le> ?M" using unsigned_less [of fp, where 'a = nat] by simp
    have "length (owners_of sort_Slice fp instances) =
        size (filter_mset ?Q (mset (map Id instances)))"
      unfolding owners_of_def by (simp only: mset_filter [symmetric] size_mset)
    also have "\<dots> = size (filter_mset ?Q (mset (map Id ?ys)))" by (simp only: m)
    also have "\<dots> = length (filter ?Q (map (\<lambda>k. Id (?ys ! k)) [0..<?n]))"
      by (simp only: mset_filter [symmetric] size_mset ids [symmetric])
    also have "\<dots> = length (filter (\<lambda>k. ?Q (Id (?ys ! k))) [0..<?n])"
      by (simp add: filter_map comp_def)
    also have "filter (\<lambda>k. ?Q (Id (?ys ! k))) [0..<?n] =
        filter (\<lambda>k. k * ?S \<le> ?x \<and> ?x \<le> (if k = ?n - 1 then ?M else k * ?S + ?S - 1)) [0..<?n]"
    proof (rule filter_cong [OF refl])
      fix k assume "k \<in> set [0..<?n]"
      then have "k < ?n" by simp
      from nth [OF this] obtain b where
        b: "range_of sort_Slice (Id (?ys ! k)) instances = Some b" "unat (Min b) = k * ?S"
           "unat (Max b) = (if k = ?n - 1 then ?M else k * ?S + ?S - 1)"
        by blast
      show "?Q (Id (?ys ! k)) \<longleftrightarrow>
            (k * ?S \<le> ?x \<and> ?x \<le> (if k = ?n - 1 then ?M else k * ?S + ?S - 1))"
        by (simp only: b(1) option.case Cmp_bounds_Overlap_iff b(2,3))
    qed
    also have "length \<dots> = 1" using n S Sn x by (rule unique_slot)
    finally show "length (owners_of sort_Slice fp instances) = 1" .
  qed
  have 2: "\<forall>id' \<in> set (map Id instances). range_of sort_Slice id' instances \<noteq> None"
  proof
    fix id' assume "id' \<in> set (map Id instances)"
    then have "id' \<in> set (map Id ?ys)" using m by (metis set_mset_mset)
    then have "id' \<in> set (map (\<lambda>k. Id (?ys ! k)) [0..<?n])" by (simp only: ids)
    then obtain k where "k < ?n" "id' = Id (?ys ! k)"
      by auto
    with nth [of k] show "range_of sort_Slice id' instances \<noteq> None" by auto
  qed
  have 3: "\<exists>inst \<in> set instances.
             (\<forall>x \<in> set instances. first_token inst \<le> first_token x)
             \<and> (\<exists>b. range_of sort_Slice (Id inst) instances = Some b \<and> Min b = 0)"
  proof -
    from nth [OF n] obtain b where
      b: "range_of sort_Slice (Id (?ys ! 0)) instances = Some b" "unat (Min b) = 0 * ?S"
      by blast
    then have "Min b = 0" by (simp add: unat_eq_zero)
    with b(1) ysne have r: "\<exists>b. range_of sort_Slice (Id (hd ?ys)) instances = Some b \<and> Min b = 0"
      by (simp add: hd_conv_nth)
    have "hd ?ys \<in> set instances" using ysne st by (metis hd_in_set)
    moreover have "\<forall>x \<in> set instances. first_token (hd ?ys) \<le> first_token x"
      using sorted_hd_least [OF so] st by blast
    ultimately show ?thesis using r by blast
  qed
  have 4: "\<exists>inst \<in> set instances.
             (\<forall>x \<in> set instances. first_token x \<le> first_token inst)
             \<and> (\<exists>b. range_of sort_Slice (Id inst) instances = Some b \<and> Max b = MaxUint64)"
  proof -
    have "?n - 1 < ?n" using n by simp
    from nth [OF this] obtain b where
      b: "range_of sort_Slice (Id (?ys ! (?n - 1))) instances = Some b" "unat (Max b) = ?M"
      by auto
    then have "unat (Max b) = unat MaxUint64" by (simp add: unat_MaxUint64)
    then have "Max b = MaxUint64" by (simp only: word_unat_eq_iff)
    with b(1) ysne l have r:
      "\<exists>b. range_of sort_Slice (Id (last ?ys)) instances = Some b \<and> Max b = MaxUint64"
      by (simp add: last_conv_nth)
    have "last ?ys \<in> set instances" using ysne st by (metis last_in_set)
    moreover have "\<forall>x \<in> set instances. first_token x \<le> first_token (last ?ys)"
      using sorted_last_greatest [OF so] st by blast
    ultimately show ?thesis using r by blast
  qed
  from 1 2 3 4 show ?thesis by blast
qed

text \<open>
  The theorem at three instances with the tokens 50, 30 and 70, where every sorting
  algorithm gives the same order; insertion sort stands for it. The fingerprint
  12297829382473034410 has one owner, and every id gets bounds.
\<close>

theorem single_token_cover_witness:
  "length (owners_of (sort_key first_token) 12297829382473034410
      [\<lparr>Id = ''a'', Tokens = [50]\<rparr>, \<lparr>Id = ''b'', Tokens = [30]\<rparr>, \<lparr>Id = ''c'', Tokens = [70]\<rparr>]) = 1
   \<and> range_of (sort_key first_token) ''a''
      [\<lparr>Id = ''a'', Tokens = [50]\<rparr>, \<lparr>Id = ''b'', Tokens = [30]\<rparr>, \<lparr>Id = ''c'', Tokens = [70]\<rparr>] \<noteq> None
   \<and> range_of (sort_key first_token) ''b''
      [\<lparr>Id = ''a'', Tokens = [50]\<rparr>, \<lparr>Id = ''b'', Tokens = [30]\<rparr>, \<lparr>Id = ''c'', Tokens = [70]\<rparr>] \<noteq> None
   \<and> range_of (sort_key first_token) ''c''
      [\<lparr>Id = ''a'', Tokens = [50]\<rparr>, \<lparr>Id = ''b'', Tokens = [30]\<rparr>, \<lparr>Id = ''c'', Tokens = [70]\<rparr>] \<noteq> None"
  using single_token_cover [OF sorts_by_sort_key, of
      "[\<lparr>Id = ''a'', Tokens = [50]\<rparr>, \<lparr>Id = ''b'', Tokens = [30]\<rparr>, \<lparr>Id = ''c'', Tokens = [70]\<rparr>]"]
  by simp

text \<open>
  Claim C3, evaluated at a snapshot whose largest token is \<^verbatim>\<open>math.MaxUint32\<close>: line 99
  computes \<^verbatim>\<open>lastToken + 1\<close> in \<^verbatim>\<open>uint32\<close>, the sum wraps to 0, and the wraparound
  range handed to the owner of the smallest token is the whole keyspace, on top of the
  ranges of the other instance.
\<close>

theorem wraparound_min_wraps_to_zero:
  "GetInstancesWithTokenRanges ''a''
     [\<lparr>Id = ''a'', Tokens = [10]\<rparr>, \<lparr>Id = ''b'', Tokens = [4294967295]\<rparr>] =
   Returns ([\<lparr>Id = ''a'', Tokens = [10]\<rparr>, \<lparr>Id = ''b'', Tokens = [4294967295]\<rparr>],
     [\<lparr>Instance = \<lparr>Id = ''a'', Tokens = [10]\<rparr>, MinToken = 0, MaxToken = 10\<rparr>,
      \<lparr>Instance = \<lparr>Id = ''a'', Tokens = [10]\<rparr>, MinToken = 0, MaxToken = MaxUint32\<rparr>])
   \<and> GetInstancesWithTokenRanges ''b''
     [\<lparr>Id = ''a'', Tokens = [10]\<rparr>, \<lparr>Id = ''b'', Tokens = [4294967295]\<rparr>] =
   Returns ([\<lparr>Id = ''a'', Tokens = [10]\<rparr>, \<lparr>Id = ''b'', Tokens = [4294967295]\<rparr>],
     [\<lparr>Instance = \<lparr>Id = ''b'', Tokens = [4294967295]\<rparr>, MinToken = 11, MaxToken = MaxUint32\<rparr>])"
  by code_simp

text \<open>
  Claim C4, amended. Both functions sort the caller's storage in place. When
  \<^verbatim>\<open>GetInstanceWithTokenRange\<close> returns, the caller's slice holds what \<^verbatim>\<open>sort.Slice\<close>
  left there: the same instances, each as it was, in ascending order of first token,
  whatever the sorting algorithm. After \<^verbatim>\<open>GetInstancesWithTokenRanges\<close> the instances
  stand in their original order and the tokens of each are its original tokens in
  ascending order.
\<close>

theorem snapshot_after_call:
  "(sorts_by first_token sort_Slice \<and>
    snapshot_after (GetInstanceWithTokenRange sort_Slice id' instances) = Some instances' \<longrightarrow>
      instances' = sort_Slice instances
      \<and> mset instances' = mset instances \<and> sorted (map first_token instances'))
   \<and> snapshot_after (GetInstancesWithTokenRanges id' instances) =
        Some (map (\<lambda>inst. inst\<lparr>Tokens := sort (Tokens inst)\<rparr>) instances)"
proof (intro conjI impI)
  assume a: "sorts_by first_token sort_Slice \<and>
    snapshot_after (GetInstanceWithTokenRange sort_Slice id' instances) = Some instances'"
  then show e: "instances' = sort_Slice instances"
    by (auto simp: snapshot_after_def GetInstanceWithTokenRange_def Let_def
        split: if_splits)
  from a have s: "sorts_by first_token sort_Slice" by simp
  show "mset instances' = mset instances"
    by (simp only: e sorts_by_mset [OF s])
  show "sorted (map first_token instances')"
    by (simp only: e sorts_by_sorted [OF s])
next
  show "snapshot_after (GetInstancesWithTokenRanges id' instances) =
        Some (map (\<lambda>inst. inst\<lparr>Tokens := sort (Tokens inst)\<rparr>) instances)"
    by (simp add: snapshot_after_def GetInstancesWithTokenRanges_eq sort_tokens_def)
qed

text \<open>
  The theorem at two instances out of order, with insertion sort for the algorithm, and
  at one instance with tokens out of order.
\<close>

theorem snapshot_after_call_witness:
  "mset [\<lparr>Id = ''b'', Tokens = [3]\<rparr>, \<lparr>Id = ''a'', Tokens = [7]\<rparr>] =
     mset [\<lparr>Id = ''a'', Tokens = [7]\<rparr>, \<lparr>Id = ''b'', Tokens = [3]\<rparr>]
   \<and> sorted (map first_token [\<lparr>Id = ''b'', Tokens = [3]\<rparr>, \<lparr>Id = ''a'', Tokens = [7]\<rparr>])
   \<and> snapshot_after (GetInstancesWithTokenRanges ''a'' [\<lparr>Id = ''a'', Tokens = [7, 3]\<rparr>]) =
        Some [\<lparr>Id = ''a'', Tokens = [3, 7]\<rparr>]"
proof -
  have a: "snapshot_after (GetInstanceWithTokenRange (sort_key first_token) ''a''
       [\<lparr>Id = ''a'', Tokens = [7]\<rparr>, \<lparr>Id = ''b'', Tokens = [3]\<rparr>])
     = Some [\<lparr>Id = ''b'', Tokens = [3]\<rparr>, \<lparr>Id = ''a'', Tokens = [7]\<rparr>]"
    by code_simp
  from snapshot_after_call [of "sort_key first_token" "''a''"
      "[\<lparr>Id = ''a'', Tokens = [7]\<rparr>, \<lparr>Id = ''b'', Tokens = [3]\<rparr>]"
      "[\<lparr>Id = ''b'', Tokens = [3]\<rparr>, \<lparr>Id = ''a'', Tokens = [7]\<rparr>]"] a
    sorts_by_sort_key [of first_token]
  have "mset [\<lparr>Id = ''b'', Tokens = [3]\<rparr>, \<lparr>Id = ''a'', Tokens = [7]\<rparr>] =
     mset [\<lparr>Id = ''a'', Tokens = [7]\<rparr>, \<lparr>Id = ''b'', Tokens = [3]\<rparr>]
   \<and> sorted (map first_token [\<lparr>Id = ''b'', Tokens = [3]\<rparr>, \<lparr>Id = ''a'', Tokens = [7]\<rparr>])"
    by blast
  moreover from snapshot_after_call [of "sort_key first_token" "''a''"
      "[\<lparr>Id = ''a'', Tokens = [7, 3]\<rparr>]"]
  have "snapshot_after (GetInstancesWithTokenRanges ''a'' [\<lparr>Id = ''a'', Tokens = [7, 3]\<rparr>]) =
        Some [\<lparr>Id = ''a'', Tokens = [3, 7]\<rparr>]"
    by simp
  ultimately show ?thesis by blast
qed

text \<open>
  The claim as stated fails. The instances with the tokens 7 and 3 are not in ascending
  order, so no sorting algorithm leaves them in place; after the call with insertion
  sort they have changed places. And the tokens 7, 3 of one instance have become 3, 7.
\<close>

theorem snapshot_is_sorted_in_place:
  "\<not> sorted (map first_token [\<lparr>Id = ''a'', Tokens = [7]\<rparr>, \<lparr>Id = ''b'', Tokens = [3]\<rparr>])
   \<and> snapshot_after (GetInstanceWithTokenRange (sort_key first_token) ''a''
       [\<lparr>Id = ''a'', Tokens = [7]\<rparr>, \<lparr>Id = ''b'', Tokens = [3]\<rparr>])
     = Some [\<lparr>Id = ''b'', Tokens = [3]\<rparr>, \<lparr>Id = ''a'', Tokens = [7]\<rparr>]
   \<and> snapshot_after (GetInstanceWithTokenRange (sort_key first_token) ''a''
       [\<lparr>Id = ''a'', Tokens = [7]\<rparr>, \<lparr>Id = ''b'', Tokens = [3]\<rparr>])
     \<noteq> Some [\<lparr>Id = ''a'', Tokens = [7]\<rparr>, \<lparr>Id = ''b'', Tokens = [3]\<rparr>]
   \<and> snapshot_after (GetInstancesWithTokenRanges ''a'' [\<lparr>Id = ''a'', Tokens = [7, 3]\<rparr>])
     = Some [\<lparr>Id = ''a'', Tokens = [3, 7]\<rparr>]
   \<and> snapshot_after (GetInstancesWithTokenRanges ''a'' [\<lparr>Id = ''a'', Tokens = [7, 3]\<rparr>])
     \<noteq> Some [\<lparr>Id = ''a'', Tokens = [7, 3]\<rparr>]"
  by code_simp

text \<open>
  Claim C5. Take a snapshot whose instances all hold a token and any sorting algorithm
  that keeps the promise of \<^verbatim>\<open>sort.Slice\<close>. Let the requested id stand at zero-based
  position \<open>i\<close> of the sorted instances (the first position with that id). Then
  \<^verbatim>\<open>GetInstanceWithTokenRange\<close> returns the bounds from \<open>i * step\<close> to
  \<open>i * step + step - 1\<close> with \<open>step = (2^64 - 1) div n\<close>, and for the last position
  \<open>i = n - 1\<close> the upper bound is \<open>2^64 - 1\<close> instead. The bounds are read as natural
  numbers: none of the 64-bit products and sums wraps. A Go slice holds fewer than
  \<open>2^63\<close> elements. The order among instances with the same first token is left to the
  algorithm; when the first tokens and the ids are pairwise distinct, the position of
  an instance is the number of instances with a smaller first token.
\<close>

theorem GetInstanceWithTokenRange_slot:
  assumes "sorts_by first_token sort_Slice"
    and "length instances < 2 ^ 63"
    and "\<forall>inst \<in> set instances. Tokens inst \<noteq> []"
  shows "(IndexFunc (sort_Slice instances) (\<lambda>inst. Id inst = id') = int i \<longrightarrow>
            (\<exists>b. GetInstanceWithTokenRange sort_Slice id' instances =
                    Returns (sort_Slice instances, Inr b)
               \<and> unat (Min b) = i * ((2 ^ 64 - 1) div length instances)
               \<and> unat (Max b) =
                   (if i = length instances - 1 then 2 ^ 64 - 1
                    else i * ((2 ^ 64 - 1) div length instances)
                         + (2 ^ 64 - 1) div length instances - 1)))
       \<and> (distinct (map first_token instances) \<and> distinct (map Id instances)
            \<and> inst \<in> set instances \<longrightarrow>
            IndexFunc (sort_Slice instances) (\<lambda>x. Id x = Id inst) =
              int (smaller_first_tokens inst instances))"
proof (intro conjI impI)
  assume idx: "IndexFunc (sort_Slice instances) (\<lambda>inst. Id inst = id') = int i"
  have "length instances < 2 ^ 64" using assms(2) by simp
  moreover have "length instances < 2 \<or> [] \<notin> set (map Tokens instances)"
    using assms(3) by auto
  moreover have "length (sort_Slice instances) = length instances"
    using assms(1) by (rule sorts_by_length)
  ultimately show "\<exists>b. GetInstanceWithTokenRange sort_Slice id' instances =
                    Returns (sort_Slice instances, Inr b)
               \<and> unat (Min b) = i * ((2 ^ 64 - 1) div length instances)
               \<and> unat (Max b) =
                   (if i = length instances - 1 then 2 ^ 64 - 1
                    else i * ((2 ^ 64 - 1) div length instances)
                         + (2 ^ 64 - 1) div length instances - 1)"
    using idx by (rule single_token_slot)
next
  assume "distinct (map first_token instances) \<and> distinct (map Id instances)
            \<and> inst \<in> set instances"
  then show "IndexFunc (sort_Slice instances) (\<lambda>x. Id x = Id inst) =
              int (smaller_first_tokens inst instances)"
    using ordinal_counts_smaller [OF assms(1)] by blast
qed

text \<open>
  The theorem at three instances with the tokens 50, 30 and 70, for the middle one;
  the tokens are distinct, and insertion sort stands for the algorithm.
\<close>

theorem GetInstanceWithTokenRange_slot_witness:
  "(\<exists>b. GetInstanceWithTokenRange (sort_key first_token) ''a''
          [\<lparr>Id = ''a'', Tokens = [50]\<rparr>, \<lparr>Id = ''b'', Tokens = [30]\<rparr>, \<lparr>Id = ''c'', Tokens = [70]\<rparr>] =
        Returns (sort_key first_token
          [\<lparr>Id = ''a'', Tokens = [50]\<rparr>, \<lparr>Id = ''b'', Tokens = [30]\<rparr>, \<lparr>Id = ''c'', Tokens = [70]\<rparr>], Inr b)
      \<and> unat (Min b) = 1 * ((2 ^ 64 - 1) div 3)
      \<and> unat (Max b) = 1 * ((2 ^ 64 - 1) div 3) + (2 ^ 64 - 1) div 3 - 1)
   \<and> smaller_first_tokens \<lparr>Id = ''a'', Tokens = [50]\<rparr>
        [\<lparr>Id = ''a'', Tokens = [50]\<rparr>, \<lparr>Id = ''b'', Tokens = [30]\<rparr>, \<lparr>Id = ''c'', Tokens = [70]\<rparr>] = 1"
proof -
  let ?s = "[\<lparr>Id = ''a'', Tokens = [50]\<rparr>, \<lparr>Id = ''b'', Tokens = [30]\<rparr>, \<lparr>Id = ''c'', Tokens = [70]\<rparr>]"
  note t = GetInstanceWithTokenRange_slot [OF sorts_by_sort_key, of ?s "''a''" 1
      "\<lparr>Id = ''a'', Tokens = [50]\<rparr>"]
  have h: "length ?s < 2 ^ 63" "\<forall>inst \<in> set ?s. Tokens inst \<noteq> []" by simp_all
  have i: "IndexFunc (sort_key first_token ?s) (\<lambda>inst. Id inst = ''a'') = int 1"
    by (simp add: first_token_def)
  have d: "distinct (map first_token ?s) \<and> distinct (map Id ?s)
      \<and> \<lparr>Id = ''a'', Tokens = [50]\<rparr> \<in> set ?s"
    by (simp add: first_token_def)
  from t [OF h] i have a: "\<exists>b. GetInstanceWithTokenRange (sort_key first_token) ''a'' ?s =
        Returns (sort_key first_token ?s, Inr b)
      \<and> unat (Min b) = 1 * ((2 ^ 64 - 1) div length ?s)
      \<and> unat (Max b) =
          (if 1 = length ?s - 1 then 2 ^ 64 - 1
           else 1 * ((2 ^ 64 - 1) div length ?s) + (2 ^ 64 - 1) div length ?s - 1)"
    by blast
  from t [OF h] d have
    "IndexFunc (sort_key first_token ?s) (\<lambda>x. Id x = Id \<lparr>Id = ''a'', Tokens = [50]\<rparr>) =
       int (smaller_first_tokens \<lparr>Id = ''a'', Tokens = [50]\<rparr> ?s)"
    by blast
  with i have b: "smaller_first_tokens \<lparr>Id = ''a'', Tokens = [50]\<rparr> ?s = 1" by simp
  from a b show ?thesis by simp
qed

text \<open>
  Claim C6, amended. In a snapshot that holds at least one token, exactly one id
  receives the extra wraparound range, and it is an id of the snapshot: for that id
  \<^verbatim>\<open>GetInstancesWithTokenRanges\<close> returns the ranges it owns followed by the range from
  one above the largest token to \<^verbatim>\<open>math.MaxUint32\<close>, and for every other id it returns
  the owned ranges alone, be they none. When all ids of the snapshot are non-empty, the
  receiver is the id of an instance that holds the globally smallest token.
\<close>

theorem wraparound_owner:
  assumes "all_tokens instances \<noteq> []"
  shows "\<exists>w \<in> set (map Id instances).
           (\<forall>id'. appends_wraparound id' instances \<longleftrightarrow> id' = w)
         \<and> (\<forall>id'. ranges_of id' instances =
                owned_ranges id' instances @
                (if id' = w
                 then [\<lparr>Instance = Instance (hd (owned_ranges id' instances)),
                        MinToken = MaxToken (last (merged_ranges instances)) + 1,
                        MaxToken = MaxUint32\<rparr>]
                 else []))
         \<and> ((\<forall>inst \<in> set instances. Id inst \<noteq> []) \<longrightarrow>
              w \<in> set (smallest_token_owners instances))"
proof -
  let ?mr = "merged_ranges instances"
  have ne: "?mr \<noteq> []" using assms by (simp add: merged_ranges_Nil_iff)
  from first_id_owner [OF ne] obtain r where
    r: "r \<in> set ?mr" "first_id ?mr = Id (Instance r)" by blast
  have 1: "first_id ?mr \<in> set (map Id instances)"
    using owner_in_snapshot(3) [OF r(1)] r(2) by simp
  have 2: "\<forall>id'. appends_wraparound id' instances \<longleftrightarrow> id' = first_id ?mr"
    using ne by (auto simp: appends_iff_first)
  have 3: "\<forall>id'. ranges_of id' instances =
                owned_ranges id' instances @
                (if id' = first_id ?mr
                 then [\<lparr>Instance = Instance (hd (owned_ranges id' instances)),
                        MinToken = MaxToken (last ?mr) + 1,
                        MaxToken = MaxUint32\<rparr>]
                 else [])"
    using 2 by (simp add: ranges_of_eq owned_ranges_def)
  have 4: "(\<forall>inst \<in> set instances. Id inst \<noteq> []) \<longrightarrow>
              first_id ?mr \<in> set (smallest_token_owners instances)"
  proof
    assume ids: "\<forall>inst \<in> set instances. Id inst \<noteq> []"
    from first_id_hd [OF ne nonempty_ids_ranges [OF ids]] first_range_owner [OF ne]
    show "first_id ?mr \<in> set (smallest_token_owners instances)" by simp
  qed
  from 1 2 3 4 show ?thesis by blast
qed

text \<open>The theorem at the snapshot of the spec's scenario B.\<close>

theorem wraparound_owner_witness:
  "appends_wraparound ''a'' [\<lparr>Id = ''a'', Tokens = [50, 10]\<rparr>, \<lparr>Id = ''b'', Tokens = [30]\<rparr>]
   \<and> \<not> appends_wraparound ''b'' [\<lparr>Id = ''a'', Tokens = [50, 10]\<rparr>, \<lparr>Id = ''b'', Tokens = [30]\<rparr>]
   \<and> ranges_of ''b'' [\<lparr>Id = ''a'', Tokens = [50, 10]\<rparr>, \<lparr>Id = ''b'', Tokens = [30]\<rparr>] =
       owned_ranges ''b'' [\<lparr>Id = ''a'', Tokens = [50, 10]\<rparr>, \<lparr>Id = ''b'', Tokens = [30]\<rparr>]
   \<and> ''a'' \<in> set (smallest_token_owners
         [\<lparr>Id = ''a'', Tokens = [50, 10]\<rparr>, \<lparr>Id = ''b'', Tokens = [30]\<rparr>])"
proof -
  let ?s = "[\<lparr>Id = ''a'', Tokens = [50, 10]\<rparr>, \<lparr>Id = ''b'', Tokens = [30]\<rparr>]"
  have "all_tokens ?s \<noteq> []" by (simp add: all_tokens_def)
  from wraparound_owner [OF this] obtain w where
    w: "\<forall>id'. appends_wraparound id' ?s \<longleftrightarrow> id' = w"
       "\<forall>id'. ranges_of id' ?s =
                owned_ranges id' ?s @
                (if id' = w
                 then [\<lparr>Instance = Instance (hd (owned_ranges id' ?s)),
                        MinToken = MaxToken (last (merged_ranges ?s)) + 1,
                        MaxToken = MaxUint32\<rparr>]
                 else [])"
       "(\<forall>inst \<in> set ?s. Id inst \<noteq> []) \<longrightarrow> w \<in> set (smallest_token_owners ?s)"
    by blast
  have a: "appends_wraparound ''a'' ?s" by code_simp
  from w(1) have "appends_wraparound ''a'' ?s \<longleftrightarrow> ''a'' = w" by (rule spec)
  with a have e: "w = ''a''" by simp
  from w(1) have "appends_wraparound ''b'' ?s \<longleftrightarrow> ''b'' = w" by (rule spec)
  then have b: "\<not> appends_wraparound ''b'' ?s" by (simp add: e)
  from w(2) have "ranges_of ''b'' ?s =
                owned_ranges ''b'' ?s @
                (if ''b'' = w
                 then [\<lparr>Instance = Instance (hd (owned_ranges ''b'' ?s)),
                        MinToken = MaxToken (last (merged_ranges ?s)) + 1,
                        MaxToken = MaxUint32\<rparr>]
                 else [])"
    by (rule spec)
  then have c: "ranges_of ''b'' ?s = owned_ranges ''b'' ?s" by (simp add: e)
  have "\<forall>inst \<in> set ?s. Id inst \<noteq> []" by simp
  with w(3) have "w \<in> set (smallest_token_owners ?s)" by (rule mp)
  then have d: "''a'' \<in> set (smallest_token_owners ?s)" by (simp only: e)
  from a b c d show ?thesis by (intro conjI)
qed

text \<open>
  The claim as stated fails: in a snapshot whose only instance has no token, no id
  receives a wraparound range; and where the instance with the smallest token has the
  empty id, the range goes to an id that does not hold the smallest token.
\<close>

theorem wraparound_owner_counterexample:
  "\<not> appends_wraparound ''a'' [\<lparr>Id = ''a'', Tokens = []\<rparr>]
   \<and> ranges_of ''a'' [\<lparr>Id = ''a'', Tokens = []\<rparr>] = []
   \<and> appends_wraparound ''b'' [\<lparr>Id = '''', Tokens = [10]\<rparr>, \<lparr>Id = ''b'', Tokens = [20]\<rparr>]
   \<and> ''b'' \<notin> set (smallest_token_owners
         [\<lparr>Id = '''', Tokens = [10]\<rparr>, \<lparr>Id = ''b'', Tokens = [20]\<rparr>])"
  by code_simp

text \<open>
  Claim C7, amended. A full pass over the iterator of \<^verbatim>\<open>NewInstanceSortMergeIterator\<close>
  yields one range per (token, owner) pair of the snapshot, none dropped and none
  collapsed, in ascending token order; the order is strictly ascending when all tokens
  are pairwise distinct. The first range starts at 0, and every later range starts one
  above the token of the range before it (in 32-bit arithmetic) and ends at its own
  token: the ranges are those of \<open>boundary_map\<close>, the fold in the words of the spec,
  over the merged sequence, started one below the minimum.
\<close>

theorem sort_merge_iterator_yields:
  "\<exists>it. NewInstanceSortMergeIterator instances = (sort_tokens instances, Returns it)
     \<and> mset (map (\<lambda>r. (MaxToken r, Instance r)) it) =
         mset (concat (map (\<lambda>inst. map (\<lambda>t. (t, inst)) (Tokens inst)) (sort_tokens instances)))
     \<and> length it = length (all_tokens instances)
     \<and> sorted (map MaxToken it)
     \<and> (distinct (all_tokens instances) \<longrightarrow> sorted_wrt (<) (map MaxToken it))
     \<and> (\<forall>k < length it.
           MinToken (it ! k) = (if k = 0 then 0 else MaxToken (it ! (k - 1)) + 1))
     \<and> it = boundary_map (sort_tokens instances) (- 1) (heapIter (sort_tokens instances))"
proof -
  let ?insts = "sort_tokens instances"
  let ?h = "heapIter ?insts"
  let ?it = "merged_ranges instances"
  have e: "?it = boundary_map ?insts (- 1) ?h" by (rule merged_ranges_eq)
  have 1: "NewInstanceSortMergeIterator instances = (?insts, Returns ?it)"
    by (simp only: NewInstanceSortMergeIterator_eq e)
  have 2: "mset (map (\<lambda>r. (MaxToken r, Instance r)) ?it) =
         mset (concat (map (\<lambda>inst. map (\<lambda>t. (t, inst)) (Tokens inst)) ?insts))"
    by (simp only: e pairs_boundary_map mset_pairs_heapIter)
  have 3: "length ?it = length (all_tokens instances)" by (rule length_merged_ranges)
  have 4: "sorted (map MaxToken ?it)" by (simp only: map_MaxToken_merged sorted_merged)
  have 5: "distinct (all_tokens instances) \<longrightarrow> sorted_wrt (<) (map MaxToken ?it)"
    by (simp only: map_MaxToken_merged) (simp add: strictly_sorted_merged)
  have 6: "\<forall>k < length ?it.
           MinToken (?it ! k) = (if k = 0 then 0 else MaxToken (?it ! (k - 1)) + 1)"
  proof (intro allI impI)
    fix k assume k: "k < length ?it"
    then have kh: "k < length ?h" by (simp add: e)
    have "k \<noteq> 0 \<Longrightarrow> MaxToken (?it ! (k - 1)) = fst (?h ! (k - 1))"
    proof -
      assume "k \<noteq> 0"
      then have "k - 1 < length ?h" using kh by simp
      then have "MaxToken (?it ! (k - 1)) = map MaxToken ?it ! (k - 1)" by (simp add: e)
      also have "\<dots> = fst (?h ! (k - 1))" using \<open>k - 1 < length ?h\<close>
        by (simp only: map_MaxToken_merged) simp
      finally show ?thesis .
    qed
    with MinToken_boundary_map [OF kh, of ?insts "- 1"] show
      "MinToken (?it ! k) = (if k = 0 then 0 else MaxToken (?it ! (k - 1)) + 1)"
      by (simp add: e)
  qed
  from 1 2 3 4 5 6 e show ?thesis by blast
qed

text \<open>The theorem at the snapshot of the spec's scenario B, which has three distinct tokens.\<close>

theorem sort_merge_iterator_yields_witness:
  "\<exists>it. NewInstanceSortMergeIterator [\<lparr>Id = ''a'', Tokens = [50, 10]\<rparr>, \<lparr>Id = ''b'', Tokens = [30]\<rparr>] =
          (sort_tokens [\<lparr>Id = ''a'', Tokens = [50, 10]\<rparr>, \<lparr>Id = ''b'', Tokens = [30]\<rparr>], Returns it)
      \<and> length it = 3
      \<and> sorted_wrt (<) (map MaxToken it)
      \<and> MinToken (it ! 0) = 0
      \<and> MinToken (it ! 1) = MaxToken (it ! 0) + 1
      \<and> MinToken (it ! 2) = MaxToken (it ! 1) + 1"
proof -
  let ?s = "[\<lparr>Id = ''a'', Tokens = [50, 10]\<rparr>, \<lparr>Id = ''b'', Tokens = [30]\<rparr>]"
  have d: "distinct (all_tokens ?s)" "length (all_tokens ?s) = 3" by (simp_all add: all_tokens_def)
  from sort_merge_iterator_yields [of ?s] obtain it where
    it: "NewInstanceSortMergeIterator ?s = (sort_tokens ?s, Returns it)"
        "length it = length (all_tokens ?s)"
        "distinct (all_tokens ?s) \<longrightarrow> sorted_wrt (<) (map MaxToken it)"
        "\<forall>k < length it. MinToken (it ! k) = (if k = 0 then 0 else MaxToken (it ! (k - 1)) + 1)"
    by blast
  from it(2) d(2) have l: "length it = 3" by simp
  from it(4) l have "MinToken (it ! 0) = 0" "MinToken (it ! 1) = MaxToken (it ! 0) + 1"
    "MinToken (it ! 2) = MaxToken (it ! 1) + 1"
    by (auto dest: spec [where x = 0] spec [where x = 1] spec [where x = 2])
  with it(1,3) d(1) l show ?thesis by blast
qed

text \<open>
  The claim as stated fails: two instances that hold the token 5 make the iterator yield
  the token 5 twice, which is not strictly ascending.
\<close>

theorem sort_merge_iterator_yields_counterexample:
  "map MaxToken (merged_ranges [\<lparr>Id = ''a'', Tokens = [5]\<rparr>, \<lparr>Id = ''b'', Tokens = [5]\<rparr>]) = [5, 5]
   \<and> \<not> sorted_wrt (<) (map MaxToken
         (merged_ranges [\<lparr>Id = ''a'', Tokens = [5]\<rparr>, \<lparr>Id = ''b'', Tokens = [5]\<rparr>]))"
  by code_simp

text \<open>
  Claim C8. In a snapshot whose instances all hold a token, and with any sorting
  algorithm that keeps the promise of \<^verbatim>\<open>sort.Slice\<close>, \<^verbatim>\<open>GetInstanceWithTokenRange\<close>
  returns \<^verbatim>\<open>ErrInstanceNotFound\<close> exactly when no instance has the requested id; it
  does so on the empty snapshot. \<^verbatim>\<open>GetInstancesWithTokenRanges\<close> returns for every
  snapshot and every id, and for an id that no instance has it returns the empty list.
\<close>

theorem not_found_asymmetry:
  "(sorts_by first_token sort_Slice \<longrightarrow>
      ((\<forall>inst \<in> set instances. Tokens inst \<noteq> []) \<longrightarrow>
         ((\<exists>instances'. GetInstanceWithTokenRange sort_Slice id' instances =
                           Returns (instances', Inl ErrInstanceNotFound))
          \<longleftrightarrow> id' \<notin> set (map Id instances)))
      \<and> GetInstanceWithTokenRange sort_Slice id' [] = Returns ([], Inl ErrInstanceNotFound))
   \<and> (\<exists>instances' servers.
         GetInstancesWithTokenRanges id' instances = Returns (instances', servers)
         \<and> (id' \<notin> set (map Id instances) \<longrightarrow> servers = []))"
proof (intro conjI impI)
  assume s: "sorts_by first_token sort_Slice"
  assume t: "\<forall>inst \<in> set instances. Tokens inst \<noteq> []"
  note o = single_token_outcome [where srt = sort_Slice and instances = instances
      and id' = id', OF t sorts_by_set [OF s]]
  show "(\<exists>instances'. GetInstanceWithTokenRange sort_Slice id' instances =
                        Returns (instances', Inl ErrInstanceNotFound))
       \<longleftrightarrow> id' \<notin> set (map Id instances)"
  proof
    assume "\<exists>instances'. GetInstanceWithTokenRange sort_Slice id' instances =
                Returns (instances', Inl ErrInstanceNotFound)"
    then show "id' \<notin> set (map Id instances)"
      using o(2) by auto
  next
    assume "id' \<notin> set (map Id instances)"
    then show "\<exists>instances'. GetInstanceWithTokenRange sort_Slice id' instances =
                Returns (instances', Inl ErrInstanceNotFound)"
      using o(1) by blast
  qed
next
  assume s: "sorts_by first_token sort_Slice"
  have "length (sort_Slice []) = length ([] :: InstanceDesc list)"
    using s by (rule sorts_by_length)
  then have "sort_Slice [] = []" by simp
  then show "GetInstanceWithTokenRange sort_Slice id' [] = Returns ([], Inl ErrInstanceNotFound)"
    by (simp add: GetInstanceWithTokenRange_def)
next
  let ?owned = "filter (\<lambda>r. Id (Instance r) = id') (merged_ranges instances)"
  have "id' \<notin> set (map Id instances) \<Longrightarrow> ?owned = []"
    using owner_in_snapshot(3) [of _ instances] by (auto simp: filter_empty_conv)
  moreover have "id' \<notin> set (map Id instances) \<Longrightarrow> \<not> appends_wraparound id' instances"
    using calculation by (simp add: appends_wraparound_iff)
  ultimately show "\<exists>instances' servers.
         GetInstancesWithTokenRanges id' instances = Returns (instances', servers)
         \<and> (id' \<notin> set (map Id instances) \<longrightarrow> servers = [])"
    by (simp add: GetInstancesWithTokenRanges_eq)
qed

text \<open>
  The theorem at a snapshot of two instances and an id that neither has, with insertion
  sort for the algorithm.
\<close>

theorem not_found_asymmetry_witness:
  "((\<exists>instances'. GetInstanceWithTokenRange (sort_key first_token) ''c''
         [\<lparr>Id = ''a'', Tokens = [50]\<rparr>, \<lparr>Id = ''b'', Tokens = [30]\<rparr>] =
       Returns (instances', Inl ErrInstanceNotFound))
     \<longleftrightarrow> ''c'' \<notin> set (map Id [\<lparr>Id = ''a'', Tokens = [50]\<rparr>, \<lparr>Id = ''b'', Tokens = [30]\<rparr>]))
   \<and> ''c'' \<notin> set (map Id [\<lparr>Id = ''a'', Tokens = [50]\<rparr>, \<lparr>Id = ''b'', Tokens = [30]\<rparr>])
   \<and> (\<exists>instances'. GetInstancesWithTokenRanges ''c''
         [\<lparr>Id = ''a'', Tokens = [50]\<rparr>, \<lparr>Id = ''b'', Tokens = [30]\<rparr>] = Returns (instances', []))"
  using not_found_asymmetry [of "sort_key first_token"
      "[\<lparr>Id = ''a'', Tokens = [50]\<rparr>, \<lparr>Id = ''b'', Tokens = [30]\<rparr>]" "''c''"]
    sorts_by_sort_key [of first_token]
  by auto

text \<open>
  Claim C9. When all tokens of the snapshot are pairwise distinct, every range the
  iterator yields, and every range \<^verbatim>\<open>GetInstancesWithTokenRanges\<close> returns, has
  \<open>MinToken \<le> MaxToken\<close>. Distinctness is needed: two instances that hold the token 5
  make the iterator yield a range from 6 to 5.
\<close>

theorem ranges_ordered_when_tokens_distinct:
  "(distinct (all_tokens instances) \<longrightarrow>
      (\<forall>r \<in> set (merged_ranges instances). MinToken r \<le> MaxToken r)
      \<and> (\<forall>r \<in> set (ranges_of id' instances). MinToken r \<le> MaxToken r))
   \<and> (\<exists>r \<in> set (merged_ranges [\<lparr>Id = ''a'', Tokens = [5]\<rparr>, \<lparr>Id = ''b'', Tokens = [5]\<rparr>]).
         MinToken r = MaxToken r + 1 \<and> MaxToken r < MinToken r)"
proof (intro conjI impI)
  assume d: "distinct (all_tokens instances)"
  show m: "\<forall>r \<in> set (merged_ranges instances). MinToken r \<le> MaxToken r"
    by (rule merged_ranges_ordered [OF d])
  show "\<forall>r \<in> set (ranges_of id' instances). MinToken r \<le> MaxToken r"
    using m by (auto simp: ranges_of_eq MaxUint32_def)
next
  have "merged_ranges [\<lparr>Id = ''a'', Tokens = [5]\<rparr>, \<lparr>Id = ''b'', Tokens = [5]\<rparr>] =
      [\<lparr>Instance = \<lparr>Id = ''a'', Tokens = [5]\<rparr>, MinToken = 0, MaxToken = 5\<rparr>,
       \<lparr>Instance = \<lparr>Id = ''b'', Tokens = [5]\<rparr>, MinToken = 6, MaxToken = 5\<rparr>]"
    by code_simp
  then show "\<exists>r \<in> set (merged_ranges [\<lparr>Id = ''a'', Tokens = [5]\<rparr>, \<lparr>Id = ''b'', Tokens = [5]\<rparr>]).
         MinToken r = MaxToken r + 1 \<and> MaxToken r < MinToken r"
    by simp
qed

text \<open>The theorem at the snapshot of the spec's scenario B.\<close>

theorem ranges_ordered_when_tokens_distinct_witness:
  "list_all (\<lambda>r. MinToken r \<le> MaxToken r)
     (merged_ranges [\<lparr>Id = ''a'', Tokens = [50, 10]\<rparr>, \<lparr>Id = ''b'', Tokens = [30]\<rparr>])
   \<and> list_all (\<lambda>r. MinToken r \<le> MaxToken r)
     (ranges_of ''a'' [\<lparr>Id = ''a'', Tokens = [50, 10]\<rparr>, \<lparr>Id = ''b'', Tokens = [30]\<rparr>])"
  using ranges_ordered_when_tokens_distinct
    [of "[\<lparr>Id = ''a'', Tokens = [50, 10]\<rparr>, \<lparr>Id = ''b'', Tokens = [30]\<rparr>]" "''a''"]
  by (simp add: all_tokens_def list_all_iff)

text \<open>
  Claim C10, amended. The loop takes the empty id of \<^verbatim>\<open>firstInst\<close> for "not set yet".
  When all ids of the snapshot are non-empty: for an id that does not own the globally
  smallest token \<^verbatim>\<open>GetInstancesWithTokenRanges\<close> returns the owned ranges and no
  wraparound range; for the id that alone owns the globally smallest token it returns
  the owned ranges followed by the wraparound range; and when the snapshot holds a
  token, the wraparound range is appended for exactly one id, one of those that own the
  globally smallest token. In the snapshot where the empty id holds the token 10 and the
  id b holds 20, the wraparound range is appended for b, which does not own the
  smallest token, and not for the empty id, which does.
\<close>

theorem empty_id_is_the_unset_sentinel:
  "((\<forall>inst \<in> set instances. Id inst \<noteq> []) \<longrightarrow>
      (id' \<notin> set (smallest_token_owners instances) \<longrightarrow>
         ranges_of id' instances = owned_ranges id' instances)
      \<and> (set (smallest_token_owners instances) = {id'} \<longrightarrow>
         ranges_of id' instances =
           owned_ranges id' instances @
             [\<lparr>Instance = Instance (hd (owned_ranges id' instances)),
               MinToken = MaxToken (last (merged_ranges instances)) + 1,
               MaxToken = MaxUint32\<rparr>])
      \<and> (all_tokens instances \<noteq> [] \<longrightarrow>
           (\<exists>w \<in> set (smallest_token_owners instances).
              \<forall>i. ranges_of i instances =
                owned_ranges i instances @
                  (if i = w
                   then [\<lparr>Instance = Instance (hd (owned_ranges i instances)),
                          MinToken = MaxToken (last (merged_ranges instances)) + 1,
                          MaxToken = MaxUint32\<rparr>]
                   else []))))
   \<and> smallest_token_owners [\<lparr>Id = [], Tokens = [10]\<rparr>, \<lparr>Id = ''b'', Tokens = [20]\<rparr>] = [[]]
   \<and> ranges_of ''b'' [\<lparr>Id = [], Tokens = [10]\<rparr>, \<lparr>Id = ''b'', Tokens = [20]\<rparr>] =
       [\<lparr>Instance = \<lparr>Id = ''b'', Tokens = [20]\<rparr>, MinToken = 11, MaxToken = 20\<rparr>,
        \<lparr>Instance = \<lparr>Id = ''b'', Tokens = [20]\<rparr>, MinToken = 21, MaxToken = MaxUint32\<rparr>]
   \<and> owned_ranges ''b'' [\<lparr>Id = [], Tokens = [10]\<rparr>, \<lparr>Id = ''b'', Tokens = [20]\<rparr>] =
       [\<lparr>Instance = \<lparr>Id = ''b'', Tokens = [20]\<rparr>, MinToken = 11, MaxToken = 20\<rparr>]
   \<and> ranges_of [] [\<lparr>Id = [], Tokens = [10]\<rparr>, \<lparr>Id = ''b'', Tokens = [20]\<rparr>] =
       [\<lparr>Instance = \<lparr>Id = [], Tokens = [10]\<rparr>, MinToken = 0, MaxToken = 10\<rparr>]"
proof (intro conjI impI)
  let ?mr = "merged_ranges instances"
  let ?wrap = "\<lambda>i. \<lparr>Instance = Instance (hd (owned_ranges i instances)),
                    MinToken = MaxToken (last ?mr) + 1, MaxToken = MaxUint32\<rparr>"
  assume ids: "\<forall>inst \<in> set instances. Id inst \<noteq> []"
  have eq: "\<And>i. ranges_of i instances =
      owned_ranges i instances @ (if appends_wraparound i instances then [?wrap i] else [])"
    by (simp add: ranges_of_eq owned_ranges_def)
  have first: "?mr \<noteq> [] \<Longrightarrow> first_id ?mr \<in> set (smallest_token_owners instances)"
    using first_id_hd [OF _ nonempty_ids_ranges [OF ids]] first_range_owner [of instances]
    by simp
  {
    assume "id' \<notin> set (smallest_token_owners instances)"
    with first have "\<not> appends_wraparound id' instances"
      by (auto simp: appends_iff_first)
    then show "ranges_of id' instances = owned_ranges id' instances"
      by (simp add: eq)
  }
  {
    assume sole: "set (smallest_token_owners instances) = {id'}"
    then have "id' \<in> set (smallest_token_owners instances)" by simp
    then obtain inst t where "inst \<in> set instances" "t \<in> set (Tokens inst)"
      unfolding smallest_token_owners_iff by blast
    then have "t \<in> set (all_tokens instances)"
      by (auto simp: all_tokens_def)
    then have "all_tokens instances \<noteq> []"
      by auto
    then have ne: "?mr \<noteq> []" by (simp add: merged_ranges_Nil_iff)
    from first [OF ne] sole have "first_id ?mr = id'" by simp
    with ne have "appends_wraparound id' instances" by (simp add: appends_iff_first)
    then show "ranges_of id' instances = owned_ranges id' instances @ [?wrap id']"
      by (simp add: eq)
  }
  {
    assume "all_tokens instances \<noteq> []"
    then have ne: "?mr \<noteq> []" by (simp add: merged_ranges_Nil_iff)
    have "\<forall>i. ranges_of i instances =
        owned_ranges i instances @ (if i = first_id ?mr then [?wrap i] else [])"
      using ne by (simp add: eq appends_iff_first)
    with first [OF ne] show "\<exists>w \<in> set (smallest_token_owners instances).
              \<forall>i. ranges_of i instances =
                owned_ranges i instances @ (if i = w then [?wrap i] else [])"
      by blast
  }
next
  show "smallest_token_owners [\<lparr>Id = [], Tokens = [10]\<rparr>, \<lparr>Id = ''b'', Tokens = [20]\<rparr>] = [[]]"
    by code_simp
  show "ranges_of ''b'' [\<lparr>Id = [], Tokens = [10]\<rparr>, \<lparr>Id = ''b'', Tokens = [20]\<rparr>] =
       [\<lparr>Instance = \<lparr>Id = ''b'', Tokens = [20]\<rparr>, MinToken = 11, MaxToken = 20\<rparr>,
        \<lparr>Instance = \<lparr>Id = ''b'', Tokens = [20]\<rparr>, MinToken = 21, MaxToken = MaxUint32\<rparr>]"
    by code_simp
  show "owned_ranges ''b'' [\<lparr>Id = [], Tokens = [10]\<rparr>, \<lparr>Id = ''b'', Tokens = [20]\<rparr>] =
       [\<lparr>Instance = \<lparr>Id = ''b'', Tokens = [20]\<rparr>, MinToken = 11, MaxToken = 20\<rparr>]"
    by code_simp
  show "ranges_of [] [\<lparr>Id = [], Tokens = [10]\<rparr>, \<lparr>Id = ''b'', Tokens = [20]\<rparr>] =
       [\<lparr>Instance = \<lparr>Id = [], Tokens = [10]\<rparr>, MinToken = 0, MaxToken = 10\<rparr>]"
    by code_simp
qed

text \<open>
  The theorem at the snapshot of the spec's scenario B: a alone owns the smallest token
  10 and gets the wraparound range, b gets none.
\<close>

theorem empty_id_is_the_unset_sentinel_witness:
  "set (smallest_token_owners [\<lparr>Id = ''a'', Tokens = [50, 10]\<rparr>, \<lparr>Id = ''b'', Tokens = [30]\<rparr>])
     = {''a''}
   \<and> ranges_of ''a'' [\<lparr>Id = ''a'', Tokens = [50, 10]\<rparr>, \<lparr>Id = ''b'', Tokens = [30]\<rparr>] =
       owned_ranges ''a'' [\<lparr>Id = ''a'', Tokens = [50, 10]\<rparr>, \<lparr>Id = ''b'', Tokens = [30]\<rparr>] @
         [\<lparr>Instance = Instance (hd (owned_ranges ''a''
              [\<lparr>Id = ''a'', Tokens = [50, 10]\<rparr>, \<lparr>Id = ''b'', Tokens = [30]\<rparr>])),
           MinToken = MaxToken (last (merged_ranges
              [\<lparr>Id = ''a'', Tokens = [50, 10]\<rparr>, \<lparr>Id = ''b'', Tokens = [30]\<rparr>])) + 1,
           MaxToken = MaxUint32\<rparr>]
   \<and> ranges_of ''b'' [\<lparr>Id = ''a'', Tokens = [50, 10]\<rparr>, \<lparr>Id = ''b'', Tokens = [30]\<rparr>] =
       owned_ranges ''b'' [\<lparr>Id = ''a'', Tokens = [50, 10]\<rparr>, \<lparr>Id = ''b'', Tokens = [30]\<rparr>]"
proof -
  let ?s = "[\<lparr>Id = ''a'', Tokens = [50, 10]\<rparr>, \<lparr>Id = ''b'', Tokens = [30]\<rparr>]"
  have ids: "\<forall>inst \<in> set ?s. Id inst \<noteq> []" by simp
  have o: "smallest_token_owners ?s = [''a'']" by code_simp
  then have a: "set (smallest_token_owners ?s) = {''a''}" by simp
  from o have b: "''b'' \<notin> set (smallest_token_owners ?s)" by simp
  from empty_id_is_the_unset_sentinel [of ?s "''a''"] ids a
  have 1: "ranges_of ''a'' ?s =
       owned_ranges ''a'' ?s @
         [\<lparr>Instance = Instance (hd (owned_ranges ''a'' ?s)),
           MinToken = MaxToken (last (merged_ranges ?s)) + 1,
           MaxToken = MaxUint32\<rparr>]"
    by blast
  from empty_id_is_the_unset_sentinel [of ?s "''b''"] ids b
  have 2: "ranges_of ''b'' ?s = owned_ranges ''b'' ?s"
    by blast
  from a 1 2 show ?thesis by (intro conjI)
qed

text \<open>
  The claim as stated fails: where two instances with non-empty ids both hold the
  smallest token 10, both own it, and still one of them gets no wraparound range,
  whichever of the two the merge yields first.
\<close>

theorem empty_id_is_the_unset_sentinel_counterexample:
  "smallest_token_owners [\<lparr>Id = ''a'', Tokens = [10]\<rparr>, \<lparr>Id = ''b'', Tokens = [10]\<rparr>]
     = [''a'', ''b'']
   \<and> (ranges_of ''a'' [\<lparr>Id = ''a'', Tokens = [10]\<rparr>, \<lparr>Id = ''b'', Tokens = [10]\<rparr>]
        = owned_ranges ''a'' [\<lparr>Id = ''a'', Tokens = [10]\<rparr>, \<lparr>Id = ''b'', Tokens = [10]\<rparr>]
      \<or> ranges_of ''b'' [\<lparr>Id = ''a'', Tokens = [10]\<rparr>, \<lparr>Id = ''b'', Tokens = [10]\<rparr>]
        = owned_ranges ''b'' [\<lparr>Id = ''a'', Tokens = [10]\<rparr>, \<lparr>Id = ''b'', Tokens = [10]\<rparr>])"
  by code_simp


end
